theory Spec2Isabelle
  imports Complex_Main "HOL-Library.Word" "HOL-Library.Signed_Division" "HOL-Library.Log_Nat"
begin

unbundle bit_operations_syntax

section \<open>Fixed-width integers of \<^verbatim>\<open>fastinv.cpp\<close>\<close>

text \<open>
  The C++ routines \<^verbatim>\<open>bit_length\<close>, \<^verbatim>\<open>modexp_64\<close>, \<^verbatim>\<open>modinv_64\<close> and
  \<^verbatim>\<open>modinv_64_prime\<close> compute on \<^verbatim>\<open>int64_t\<close>. An \<^verbatim>\<open>int64_t\<close> is a 64-bit word read
  in two's complement by \<open>sint\<close>; \<open>+\<close>, \<open>-\<close> and \<open>*\<close> wrap around, comparisons are the
  signed ones (\<open>\<le>s\<close>, \<open><s\<close>), and \<^verbatim>\<open>>>\<close> on a signed operand is the arithmetic shift
  \<open>signed_drop_bit\<close>.
\<close>

type_synonym i64 = "64 word"

lemma sint_i64_of_int:
  "- (2 ^ 63) \<le> x \<Longrightarrow> x < 2 ^ 63 \<Longrightarrow> sint (word_of_int x :: i64) = x"
  by (simp add: sint_sbintrunc' signed_take_bit_int_eq_self)

lemma sint_i64_bounds: "- (2 ^ 63) \<le> sint (w :: i64)" "sint (w :: i64) < 2 ^ 63"
  using sint_ge [of w] sint_lt [of w] by simp_all

lemma sint_i64_add:
  "- (2 ^ 63) \<le> sint a + sint b \<Longrightarrow> sint a + sint b < 2 ^ 63 \<Longrightarrow>
   sint (a + b :: i64) = sint a + sint b"
  using sint_i64_of_int [of "sint a + sint b"] by simp

lemma sint_halve: "sint (signed_drop_bit 1 (n :: i64)) = sint n div 2"
  by (simp add: sint_signed_drop_bit_eq drop_bit_eq_div)


section \<open>\<^verbatim>\<open>bit_length\<close>\<close>

text \<open>
  \<^verbatim>\<open>int64_t bit_length(int64_t n) { return (n >= 2) ? bit_length(n >> 1) + 1 : 1; }\<close>

  The recursion halves a value that is at least 2, so the signed value decreases.
\<close>

function bit_length :: "i64 \<Rightarrow> i64" where
  "bit_length n = (if 2 \<le>s n then bit_length (signed_drop_bit 1 n) + 1 else 1)"
  by pat_completeness auto
termination
proof (relation "measure (\<lambda>n. nat (sint n))")
  show "wf (measure (\<lambda>n::i64. nat (sint n)))" by simp
next
  fix n :: i64
  assume "2 \<le>s n"
  then have "2 \<le> sint n" by (simp add: word_sle_eq)
  then show "(signed_drop_bit 1 n, n) \<in> measure (\<lambda>n. nat (sint n))"
    by (simp add: sint_signed_drop_bit_eq drop_bit_eq_div)
qed

declare bit_length.simps [simp del]

lemma bit_length_floorlog:
  "1 \<le> sint n \<Longrightarrow> sint (bit_length n) = int (floorlog 2 (nat (sint n)))"
proof (induction n rule: bit_length.induct)
  case (1 n)
  show ?case
  proof (cases "2 \<le>s n")
    case True
    then have ge2: "2 \<le> sint n" by (simp add: word_sle_eq)
    let ?h = "signed_drop_bit 1 n"
    have half: "sint ?h = sint n div 2" by (rule sint_halve)
    with ge2 have "1 \<le> sint ?h" by simp
    with 1 True have IH: "sint (bit_length ?h) = int (floorlog 2 (nat (sint ?h)))"
      by blast
    have nh: "nat (sint ?h) = nat (sint n) div 2"
      using ge2 half by (simp add: nat_div_distrib)
    have "floorlog 2 (nat (sint n)) = floorlog 2 (nat (sint n) div 2) + 1"
      using ge2 by (subst compute_floorlog) simp
    then have fl: "floorlog 2 (nat (sint n)) = floorlog 2 (nat (sint ?h)) + 1"
      by (simp only: nh)
    have "nat (sint ?h) < 2 ^ 62"
      using sint_i64_bounds(2) [of n] ge2 half by simp
    then have le: "floorlog 2 (nat (sint ?h)) \<le> 62"
      by (intro floorlog_leI) simp_all
    have "bit_length n = bit_length ?h + 1"
      using True by (subst bit_length.simps) simp
    moreover have "sint (bit_length ?h + 1) = sint (bit_length ?h) + sint (1 :: i64)"
      using le by (intro sint_i64_add) (simp_all only: IH, simp_all)
    ultimately have "sint (bit_length n) = sint (bit_length ?h) + 1"
      by simp
    then show ?thesis using IH fl by simp
  next
    case False
    with 1(2) have "sint n = 1" by (simp add: word_sle_eq)
    then have "floorlog 2 (nat (sint n)) = 1" by (simp add: compute_floorlog)
    with False show ?thesis by (subst bit_length.simps) simp
  qed
qed

lemma bit_length_below_2: "sint n < 2 \<Longrightarrow> bit_length n = 1"
  by (subst bit_length.simps) (simp add: word_sle_eq)

text \<open>
  Claim C9. \<^verbatim>\<open>bit_length\<close> is a total function on \<^verbatim>\<open>int64_t\<close> (the definition above
  carries its termination proof); for every \<open>n \<ge> 1\<close> it returns \<open>\<lfloor>log\<^sub>2 n\<rfloor> + 1\<close>, the
  position of the most significant set bit, and for every \<open>n \<le> 0\<close> it returns 1.
\<close>

theorem bit_length_spec:
  "(1 \<le>s n \<longrightarrow> sint (bit_length n) = \<lfloor>log 2 (real_of_int (sint n))\<rfloor> + 1) \<and>
   (n \<le>s 0 \<longrightarrow> bit_length n = 1)"
proof (intro conjI impI)
  assume "1 \<le>s n"
  then have pos: "1 \<le> sint n" by (simp add: word_sle_eq)
  then have "sint (bit_length n) = int (floorlog 2 (nat (sint n)))"
    by (rule bit_length_floorlog)
  also have "\<dots> = \<lfloor>log 2 (real_of_int (sint n))\<rfloor> + 1"
  proof -
    have "1 \<le> real_of_int (sint n)" using pos by (simp del: of_int_sint)
    then have "0 \<le> log 2 (real_of_int (sint n))" by (simp del: of_int_sint)
    then have "0 \<le> \<lfloor>log 2 (real_of_int (sint n))\<rfloor>" by (simp del: of_int_sint)
    moreover have "real (nat (sint n)) = real_of_int (sint n)"
      using pos by (simp del: of_int_sint)
    ultimately show ?thesis using pos by (simp add: floorlog_def del: of_int_sint)
  qed
  finally show "sint (bit_length n) = \<lfloor>log 2 (real_of_int (sint n))\<rfloor> + 1" .
next
  assume "n \<le>s 0"
  then show "bit_length n = 1" by (simp add: word_sle_eq bit_length_below_2)
qed

theorem bit_length_spec_witness:
  "(1 :: i64) \<le>s 5 \<and> sint (bit_length 5) = \<lfloor>log 2 (real_of_int (sint (5 :: i64)))\<rfloor> + 1 \<and>
   bit_length 5 = 3 \<and> (- 7 :: i64) \<le>s 0 \<and> bit_length (- 7) = 1"
proof -
  have a: "(1 :: i64) \<le>s 5" by (simp add: word_sle_eq)
  have b: "(- 7 :: i64) \<le>s 0" by (simp add: word_sle_eq)
  have c: "bit_length 5 = 3" by code_simp
  from a b c bit_length_spec [of 5] bit_length_spec [of "- 7"] show ?thesis by blast
qed


section \<open>Division and remainder on \<^verbatim>\<open>int64_t\<close>\<close>

text \<open>
  C++ \<^verbatim>\<open>/\<close> and \<^verbatim>\<open>%\<close> truncate towards zero (\<open>sdiv\<close>, \<open>smod\<close>). Two operand
  pairs have no result: a zero divisor, and \<^verbatim>\<open>INT64_MIN / -1\<close>, whose quotient does not fit
  (both trap on the usual hardware). They are the faults of the model; a faulting
  routine returns \<open>Inl\<close>. \<open>UndefinedShift\<close> is the third fault, used by \<^verbatim>\<open>modexp_64\<close>.
\<close>

datatype fault = DivideByZero | DivideOverflow | UndefinedShift

definition int64_min :: i64 where
  "int64_min = - (2 ^ 63)"

definition div_i64 :: "i64 \<Rightarrow> i64 \<Rightarrow> fault + i64" where
  "div_i64 a b =
     (if b = 0 then Inl DivideByZero
      else if a = int64_min \<and> b = - 1 then Inl DivideOverflow
      else Inr (word_of_int (sint a sdiv sint b)))"

definition rem_i64 :: "i64 \<Rightarrow> i64 \<Rightarrow> fault + i64" where
  "rem_i64 a b =
     (if b = 0 then Inl DivideByZero
      else if a = int64_min \<and> b = - 1 then Inl DivideOverflow
      else Inr (word_of_int (sint a smod sint b)))"

lemma sint_int64_min: "sint int64_min = - (2 ^ 63)"
  by (simp add: int64_min_def)

lemma i64_eqI: "sint a = sint b \<Longrightarrow> (a :: i64) = b"
  by (rule signed_word_eqI)

lemma sint_i64_nonzero: "(b :: i64) \<noteq> 0 \<Longrightarrow> sint b \<noteq> 0"
  using i64_eqI [of b 0] by auto

lemma sdiv_i64_range:
  assumes "\<not> (a = int64_min \<and> b = (- 1 :: i64))"
  shows "- (2 ^ 63) \<le> sint a sdiv sint b \<and> sint a sdiv sint b < 2 ^ 63"
proof (cases "sint b = - 1")
  case True
  then have "b = - 1" by (intro i64_eqI) simp
  with assms have "a \<noteq> int64_min" by simp
  then have "sint a \<noteq> - (2 ^ 63)" using i64_eqI [of a int64_min] by (auto simp: sint_int64_min)
  with sint_i64_bounds [of a] True show ?thesis by simp
next
  case False
  have r: "- \<bar>sint a\<bar> \<le> sint a sdiv sint b" "sint a sdiv sint b \<le> \<bar>sint a\<bar>"
    using sdiv_int_range [of "sint a" "sint b"] by simp_all
  show ?thesis
  proof (cases "sint a = - (2 ^ 63)")
    case neg: False
    with sint_i64_bounds [of a] r show ?thesis by linarith
  next
    case True
    show ?thesis
    proof (cases "\<bar>sint b\<bar> \<le> 1")
      case True
      with False have "sint b = 0 \<or> sint b = 1" by linarith
      then show ?thesis using sint_i64_bounds [of a] by auto
    next
      case big: False
      then have "\<bar>sint a\<bar> div \<bar>sint b\<bar> \<le> \<bar>sint a\<bar> div 2"
        by (intro zdiv_mono2) simp_all
      also have "\<dots> = 2 ^ 62" using True by simp
      finally have le: "\<bar>sint a\<bar> div \<bar>sint b\<bar> \<le> 2 ^ 62" .
      have "0 \<le> \<bar>sint a\<bar> div \<bar>sint b\<bar>"
        by (simp add: div_int_pos_iff)
      with le have "\<bar>sint a sdiv sint b\<bar> \<le> 2 ^ 62"
        by (simp add: signed_divide_int_def abs_mult abs_sgn_eq split: if_splits)
      then show ?thesis by (simp add: abs_le_iff)
    qed
  qed
qed

lemma div_i64_Inr:
  assumes "div_i64 a b = Inr q"
  shows "b \<noteq> 0" and "sint q = sint a sdiv sint b"
proof -
  from assms show nz: "b \<noteq> 0" by (auto simp: div_i64_def split: if_splits)
  from assms have q: "q = word_of_int (sint a sdiv sint b)" and no: "\<not> (a = int64_min \<and> b = - 1)"
    by (auto simp: div_i64_def split: if_splits)
  from sdiv_i64_range [OF no] show "sint q = sint a sdiv sint b"
    by (simp add: q sint_i64_of_int)
qed

lemma rem_i64_Inr:
  assumes "rem_i64 a b = Inr r"
  shows "b \<noteq> 0" and "sint r = sint a smod sint b"
proof -
  from assms show nz: "b \<noteq> 0" by (auto simp: rem_i64_def split: if_splits)
  then have nz': "sint b \<noteq> 0" by (rule sint_i64_nonzero)
  from assms have r: "r = word_of_int (sint a smod sint b)"
    by (auto simp: rem_i64_def split: if_splits)
  have "- \<bar>sint b\<bar> < sint a smod sint b" "sint a smod sint b < \<bar>sint b\<bar>"
    using smod_int_range [OF nz', of "sint a"] by simp_all
  with sint_i64_bounds [of b] have "- (2 ^ 63) \<le> sint a smod sint b" "sint a smod sint b < 2 ^ 63"
    by linarith+
  then show "sint r = sint a smod sint b"
    by (simp add: r sint_i64_of_int)
qed

lemma div_i64_remainder:
  assumes "div_i64 r1 r2 = Inr q"
  shows "sint (r1 - q * r2) = sint r1 smod sint r2"
    and "rem_i64 r1 r2 = Inr (r1 - q * r2)"
proof -
  from assms have nz: "r2 \<noteq> 0" and q: "sint q = sint r1 sdiv sint r2"
    by (rule div_i64_Inr)+
  from assms have no: "\<not> (r1 = int64_min \<and> r2 = - 1)"
    by (auto simp: div_i64_def split: if_splits)
  have "r1 - q * r2 = word_of_int (sint r1 - sint q * sint r2)"
    by simp
  also have "sint r1 - sint q * sint r2 = sint r1 smod sint r2"
    by (simp only: q minus_sdiv_mult_eq_smod)
  finally have eq: "r1 - q * r2 = word_of_int (sint r1 smod sint r2)" .
  with nz no show "rem_i64 r1 r2 = Inr (r1 - q * r2)"
    by (simp add: rem_i64_def)
  then show "sint (r1 - q * r2) = sint r1 smod sint r2"
    by (rule rem_i64_Inr)
qed

lemma smod_abs_less: "b \<noteq> 0 \<Longrightarrow> \<bar>a smod b\<bar> < \<bar>b :: int\<bar>"
  using smod_int_range [of b a] by auto


section \<open>\<^verbatim>\<open>modinv_64\<close> and \<^verbatim>\<open>modinv_64_prime\<close>\<close>

text \<open>
  \<^verbatim>\<open>modinv_64\<close>: the loop \<^verbatim>\<open>while (r2 != 0) { q = r1 / r2; (t1, t2) = (t2, t1 - q * t2);
  (r1, r2) = (r2, r1 - q * r2); }\<close> started at \<^verbatim>\<open>t1 = 0, t2 = 1, r1 = n, r2 = a\<close>; the loop
  function returns the final \<open>(t1, r1)\<close>. After the loop: \<^verbatim>\<open>if (r1 > 1) return 0;
  if (t1 < 0) t1 += n; return t1;\<close>
\<close>

function modinv_64_loop :: "i64 \<Rightarrow> i64 \<Rightarrow> i64 \<Rightarrow> i64 \<Rightarrow> fault + (i64 \<times> i64)" where
  "modinv_64_loop t1 t2 r1 r2 =
     (if r2 \<noteq> 0 then
        (case div_i64 r1 r2 of
           Inl e \<Rightarrow> Inl e
         | Inr q \<Rightarrow> modinv_64_loop t2 (t1 - q * t2) r2 (r1 - q * r2))
      else Inr (t1, r1))"
  by pat_completeness auto
termination
proof (relation "measure (\<lambda>(t1, t2, r1, r2). nat \<bar>sint r2\<bar>)")
  show "wf (measure (\<lambda>(t1 :: i64, t2 :: i64, r1 :: i64, r2 :: i64). nat \<bar>sint r2\<bar>))"
    by simp
next
  fix t1 t2 r1 r2 q :: i64
  assume nz: "r2 \<noteq> 0" and q: "div_i64 r1 r2 = Inr q"
  from q have "sint (r1 - q * r2) = sint r1 smod sint r2"
    by (rule div_i64_remainder)
  with smod_abs_less [OF sint_i64_nonzero [OF nz], of "sint r1"]
  show "((t2, t1 - q * t2, r2, r1 - q * r2), t1, t2, r1, r2)
        \<in> measure (\<lambda>(t1, t2, r1, r2). nat \<bar>sint r2\<bar>)"
    by simp
qed

declare modinv_64_loop.simps [simp del]

definition modinv_64 :: "i64 \<Rightarrow> i64 \<Rightarrow> fault + i64" where
  "modinv_64 a n =
     (case modinv_64_loop 0 1 n a of
        Inl e \<Rightarrow> Inl e
      | Inr (t1, r1) \<Rightarrow>
          if 1 <s r1 then Inr 0
          else if t1 <s 0 then Inr (t1 + n)
          else Inr t1)"

text \<open>
  \<^verbatim>\<open>modinv_64_prime\<close>: the loop \<^verbatim>\<open>while (c != 0) { q = a / c, r = a % c; a = c, c = r;
  old_u = u; u = w; w = old_u - q * w; }\<close> started at \<^verbatim>\<open>u = 1, w = 0, c = n\<close>; it returns
  \<open>u\<close>. In the last assignment \<open>w\<close> is still the old \<open>w\<close>, since \<open>u = w\<close> does not change it.
\<close>

function modinv_64_prime_loop :: "i64 \<Rightarrow> i64 \<Rightarrow> i64 \<Rightarrow> i64 \<Rightarrow> fault + i64" where
  "modinv_64_prime_loop u w a c =
     (if c \<noteq> 0 then
        (case div_i64 a c of
           Inl e \<Rightarrow> Inl e
         | Inr q \<Rightarrow>
             (case rem_i64 a c of
                Inl e \<Rightarrow> Inl e
              | Inr r \<Rightarrow> modinv_64_prime_loop w (u - q * w) c r))
      else Inr u)"
  by pat_completeness auto
termination
proof (relation "measure (\<lambda>(u, w, a, c). nat \<bar>sint c\<bar>)")
  show "wf (measure (\<lambda>(u :: i64, w :: i64, a :: i64, c :: i64). nat \<bar>sint c\<bar>))"
    by simp
next
  fix u w a c q r :: i64
  assume nz: "c \<noteq> 0" and r: "rem_i64 a c = Inr r"
  from r have "sint r = sint a smod sint c"
    by (rule rem_i64_Inr)
  with smod_abs_less [OF sint_i64_nonzero [OF nz], of "sint a"]
  show "((w, u - q * w, c, r), u, w, a, c) \<in> measure (\<lambda>(u, w, a, c). nat \<bar>sint c\<bar>)"
    by simp
qed

declare modinv_64_prime_loop.simps [simp del]

definition modinv_64_prime :: "i64 \<Rightarrow> i64 \<Rightarrow> fault + i64" where
  "modinv_64_prime a n = modinv_64_prime_loop 1 0 a n"


section \<open>The arbitrary-precision loops of \<^verbatim>\<open>modinv\<close> and \<^verbatim>\<open>_primeinv\<close>\<close>

text \<open>
  Beyond 64 bits \<^verbatim>\<open>modinv\<close> runs the same loop on Python integers, with
  \<^verbatim>\<open>PyNumber_FloorDivide\<close>, \<^verbatim>\<open>PyNumber_Multiply\<close> and \<^verbatim>\<open>PyNumber_Subtract\<close>: unbounded
  integers and the floor division of HOL's \<open>div\<close>. The loop function returns the final
  \<open>(t1, r1)\<close>.
\<close>

function modinv_pylong_loop :: "int \<Rightarrow> int \<Rightarrow> int \<Rightarrow> int \<Rightarrow> int \<times> int" where
  "modinv_pylong_loop t1 t2 r1 r2 =
     (if r2 \<noteq> 0 then
        (let q = r1 div r2 in modinv_pylong_loop t2 (t1 - q * t2) r2 (r1 - q * r2))
      else (t1, r1))"
  by pat_completeness auto
termination
proof (relation "measure (\<lambda>(t1, t2, r1, r2). nat \<bar>r2\<bar>)")
  show "wf (measure (\<lambda>(t1 :: int, t2 :: int, r1 :: int, r2 :: int). nat \<bar>r2\<bar>))"
    by simp
next
  fix t1 t2 r1 r2 q :: int
  assume nz: "r2 \<noteq> 0" and q: "q = r1 div r2"
  have "r1 - q * r2 = r1 mod r2"
    by (simp add: q minus_div_mult_eq_mod)
  with abs_mod_less [OF nz, of r1]
  show "((t2, t1 - q * t2, r2, r1 - q * r2), t1, t2, r1, r2)
        \<in> measure (\<lambda>(t1, t2, r1, r2). nat \<bar>r2\<bar>)"
    by simp
qed

declare modinv_pylong_loop.simps [simp del]

subsection \<open>The invariant of the extended Euclidean loop\<close>

text \<open>
  With \<open>N\<close> the modulus and \<open>A\<close> the operand, every state of the loop keeps
  \<open>t1 * A \<equiv> r1\<close> and \<open>t2 * A \<equiv> r2\<close> modulo \<open>N\<close>, the two coefficients have opposite
  signs, and \<open>\<bar>t1\<bar> * r2 + \<bar>t2\<bar> * r1 = N\<close>, which bounds the coefficients by \<open>N\<close>.
\<close>

lemma abs_diff_opposite:
  fixes t1 t2 q :: int
  assumes "t1 * t2 \<le> 0" "0 \<le> q"
  shows "\<bar>t1 - q * t2\<bar> = \<bar>t1\<bar> + q * \<bar>t2\<bar>"
proof (cases "0 \<le> t2")
  case True
  show ?thesis
  proof (cases "t2 = 0")
    case True then show ?thesis by simp
  next
    case False
    with True have "0 < t2" by simp
    with assms(1) have "t1 \<le> 0" by (simp add: mult_le_0_iff)
    moreover have "0 \<le> q * t2" using assms(2) True by simp
    ultimately show ?thesis using True by simp
  qed
next
  case False
  then have neg: "t2 < 0" by simp
  with assms(1) have "0 \<le> t1" by (simp add: mult_le_0_iff)
  moreover have "q * t2 \<le> 0" using assms(2) neg by (simp add: mult_le_0_iff)
  ultimately show ?thesis using neg by simp
qed

lemma modinv_pylong_loop_inv:
  assumes "0 \<le> r1" "0 \<le> r2" "t1 * t2 \<le> 0" "\<bar>t1\<bar> * r2 + \<bar>t2\<bar> * r1 = N"
    "N dvd t1 * A - r1" "N dvd t2 * A - r2" "\<bar>t1\<bar> \<le> N" "\<bar>t2\<bar> \<le> N"
  shows "case modinv_pylong_loop t1 t2 r1 r2 of
           (t, g) \<Rightarrow> g = gcd r1 r2 \<and> N dvd t * A - g \<and> \<bar>t\<bar> \<le> N"
  using assms
proof (induction t1 t2 r1 r2 rule: modinv_pylong_loop.induct)
  case (1 t1 t2 r1 r2)
  show ?case
  proof (cases "r2 = 0")
    case True
    with "1.prems" show ?thesis
      by (subst modinv_pylong_loop.simps) simp
  next
    case False
    define q where "q = r1 div r2"
    from False "1.prems"(2) have r2: "0 < r2" by simp
    have q0: "0 \<le> q" using "1.prems"(1) r2 by (simp add: q_def pos_imp_zdiv_nonneg_iff)
    have rem: "r1 - q * r2 = r1 mod r2" by (simp add: q_def minus_div_mult_eq_mod)
    have a1: "0 \<le> r1 - q * r2" using r2 by (simp add: rem)
    have a2: "t2 * (t1 - q * t2) \<le> 0"
    proof -
      have "t2 * (t1 - q * t2) = t1 * t2 - q * (t2 * t2)" by (simp add: algebra_simps)
      moreover have "0 \<le> q * (t2 * t2)" using q0 by simp
      ultimately show ?thesis using "1.prems"(3) by linarith
    qed
    have a3: "\<bar>t2\<bar> * (r1 - q * r2) + \<bar>t1 - q * t2\<bar> * r2 = N"
      using "1.prems"(4) by (simp add: abs_diff_opposite [OF "1.prems"(3) q0] algebra_simps)
    have a5: "N dvd (t1 - q * t2) * A - (r1 - q * r2)"
    proof -
      have eq: "(t1 - q * t2) * A - (r1 - q * r2) = (t1 * A - r1) - q * (t2 * A - r2)"
        by (simp add: algebra_simps)
      from "1.prems"(6) have "N dvd q * (t2 * A - r2)" by (rule dvd_mult)
      with "1.prems"(5) have "N dvd (t1 * A - r1) - q * (t2 * A - r2)" by (rule dvd_diff)
      then show ?thesis by (simp only: eq)
    qed
    have a7: "\<bar>t1 - q * t2\<bar> \<le> N"
    proof -
      have "0 \<le> \<bar>t2\<bar> * (r1 - q * r2)" using a1 by simp
      with a3 have "\<bar>t1 - q * t2\<bar> * r2 \<le> N" by linarith
      moreover have "\<bar>t1 - q * t2\<bar> * 1 \<le> \<bar>t1 - q * t2\<bar> * r2"
        using r2 by (intro mult_left_mono) simp_all
      ultimately show ?thesis by simp
    qed
    have IH: "case modinv_pylong_loop t2 (t1 - q * t2) r2 (r1 - q * r2) of
           (t, g) \<Rightarrow> g = gcd r2 (r1 - q * r2) \<and> N dvd t * A - g \<and> \<bar>t\<bar> \<le> N"
      using "1.prems"(2,6,8) a1 a2 a3 a5 a7
      by (intro "1.IH" [OF False q_def]) simp_all
    have g: "gcd r2 (r1 - q * r2) = gcd r1 r2"
      using gcd_red_int [of r1 r2] by (simp add: rem gcd.commute)
    have "modinv_pylong_loop t1 t2 r1 r2 = modinv_pylong_loop t2 (t1 - q * t2) r2 (r1 - q * r2)"
      using False by (subst modinv_pylong_loop.simps) (simp add: q_def Let_def)
    with IH g show ?thesis by simp
  qed
qed

text \<open>
  \<^verbatim>\<open>_primeinv\<close> (here \<open>primeinv_pylong\<close>, as a name cannot start with an underscore) is
  the loop of \<^verbatim>\<open>modinv_64_prime\<close> on Python integers, with \<^verbatim>\<open>PyNumber_Divmod\<close> (floor
  division and its remainder).
\<close>

function primeinv_pylong_loop :: "int \<Rightarrow> int \<Rightarrow> int \<Rightarrow> int \<Rightarrow> int" where
  "primeinv_pylong_loop u w a c =
     (if c \<noteq> 0 then
        (let q = a div c; r = a mod c in primeinv_pylong_loop w (u - q * w) c r)
      else u)"
  by pat_completeness auto
termination
proof (relation "measure (\<lambda>(u, w, a, c). nat \<bar>c\<bar>)")
  show "wf (measure (\<lambda>(u :: int, w :: int, a :: int, c :: int). nat \<bar>c\<bar>))"
    by simp
next
  fix u w a c q r :: int
  assume "c \<noteq> 0" and "r = a mod c"
  then show "((w, u - q * w, c, r), u, w, a, c) \<in> measure (\<lambda>(u, w, a, c). nat \<bar>c\<bar>)"
    by (simp add: abs_mod_less)
qed

declare primeinv_pylong_loop.simps [simp del]

lemma primeinv_pylong_loop_eq:
  "primeinv_pylong_loop u w a c = fst (modinv_pylong_loop u w a c)"
proof (induction u w a c rule: modinv_pylong_loop.induct)
  case (1 t1 t2 r1 r2)
  show ?case
  proof (cases "r2 = 0")
    case True
    then show ?thesis
      by (subst primeinv_pylong_loop.simps, subst modinv_pylong_loop.simps) simp
  next
    case False
    have "primeinv_pylong_loop t1 t2 r1 r2
          = primeinv_pylong_loop t2 (t1 - r1 div r2 * t2) r2 (r1 - r1 div r2 * r2)"
      using False
      by (subst primeinv_pylong_loop.simps) (simp add: Let_def minus_div_mult_eq_mod)
    also have "\<dots> = fst (modinv_pylong_loop t2 (t1 - r1 div r2 * t2) r2 (r1 - r1 div r2 * r2))"
      using False by (intro "1.IH") simp_all
    also have "\<dots> = fst (modinv_pylong_loop t1 t2 r1 r2)"
      using False by (subst (2) modinv_pylong_loop.simps) (simp add: Let_def)
    finally show ?thesis .
  qed
qed

subsection \<open>The fixed-width loops compute what the arbitrary-precision loops compute\<close>

text \<open>
  On non-negative operands below \<open>2\<^sup>6\<^sup>3\<close> truncating and floor division agree and no
  division faults; the coefficients may wrap, but \<open>word_of_int\<close> commutes with \<open>+\<close>, \<open>-\<close>
  and \<open>*\<close>, so the 64-bit state is the image of the unbounded one at every step.
\<close>

lemma i64_of_int_eq_0_iff:
  "0 \<le> x \<Longrightarrow> x < 2 ^ 63 \<Longrightarrow> (word_of_int x :: i64) = 0 \<longleftrightarrow> x = 0"
  using sint_i64_of_int [of x] by auto

lemma sint_i64_of_nonneg: "0 \<le> x \<Longrightarrow> x < 2 ^ 63 \<Longrightarrow> sint (word_of_int x :: i64) = x"
  by (rule sint_i64_of_int) simp_all

lemma div_i64_of_int:
  assumes "0 \<le> r1" "r1 < 2 ^ 63" "0 < r2" "r2 < 2 ^ 63"
  shows "div_i64 (word_of_int r1) (word_of_int r2) = Inr (word_of_int (r1 div r2))"
proof -
  have s1: "sint (word_of_int r1 :: i64) = r1" and s2: "sint (word_of_int r2 :: i64) = r2"
    using assms by (simp_all add: sint_i64_of_nonneg)
  have "(word_of_int r2 :: i64) \<noteq> 0"
    using assms by (simp add: i64_of_int_eq_0_iff)
  moreover have "(word_of_int r1 :: i64) \<noteq> int64_min"
    using s1 assms(1) sint_int64_min by auto
  moreover have "r1 sdiv r2 = r1 div r2"
    using assms(1,3) by (simp add: signed_divide_int_def sgn_if)
  ultimately show ?thesis by (simp add: div_i64_def s1 s2)
qed

lemma rem_i64_of_int:
  assumes "0 \<le> r1" "r1 < 2 ^ 63" "0 < r2" "r2 < 2 ^ 63"
  shows "rem_i64 (word_of_int r1) (word_of_int r2) = Inr (word_of_int (r1 mod r2))"
proof -
  have s1: "sint (word_of_int r1 :: i64) = r1" and s2: "sint (word_of_int r2 :: i64) = r2"
    using assms by (simp_all add: sint_i64_of_nonneg)
  have "(word_of_int r2 :: i64) \<noteq> 0"
    using assms by (simp add: i64_of_int_eq_0_iff)
  moreover have "(word_of_int r1 :: i64) \<noteq> int64_min"
    using s1 assms(1) sint_int64_min by auto
  moreover have "r1 smod r2 = r1 mod r2"
    using assms(1,3) by (simp add: smod_mod_positive)
  ultimately show ?thesis by (simp add: rem_i64_def s1 s2)
qed

lemma modinv_64_loop_of_int:
  assumes "0 \<le> r1" "r1 < 2 ^ 63" "0 \<le> r2" "r2 < 2 ^ 63"
  shows "modinv_64_loop (word_of_int t1) (word_of_int t2) (word_of_int r1) (word_of_int r2)
         = Inr (map_prod word_of_int word_of_int (modinv_pylong_loop t1 t2 r1 r2))"
  using assms
proof (induction t1 t2 r1 r2 rule: modinv_pylong_loop.induct)
  case (1 t1 t2 r1 r2)
  show ?case
  proof (cases "r2 = 0")
    case True
    then show ?thesis
      by (subst modinv_64_loop.simps, subst modinv_pylong_loop.simps) simp
  next
    case False
    define q where "q = r1 div r2"
    from False "1.prems" have r2: "0 < r2" by simp
    have nz: "(word_of_int r2 :: i64) \<noteq> 0"
      using "1.prems" False by (simp add: i64_of_int_eq_0_iff)
    have d: "div_i64 (word_of_int r1) (word_of_int r2) = Inr (word_of_int q)"
      unfolding q_def using "1.prems"(1,2) r2 "1.prems"(4) by (rule div_i64_of_int)
    have rem: "r1 - q * r2 = r1 mod r2" by (simp add: q_def minus_div_mult_eq_mod)
    have "r1 mod r2 < r2" "0 \<le> r1 mod r2" using r2 by simp_all
    with "1.prems"(4) have b: "0 \<le> r1 - q * r2" "r1 - q * r2 < 2 ^ 63"
      unfolding rem by linarith+
    have "modinv_64_loop (word_of_int t1) (word_of_int t2) (word_of_int r1) (word_of_int r2)
          = modinv_64_loop (word_of_int t2) (word_of_int (t1 - q * t2))
              (word_of_int r2) (word_of_int (r1 - q * r2))"
      using nz by (subst modinv_64_loop.simps) (simp add: d)
    also have "\<dots> = Inr (map_prod word_of_int word_of_int
                 (modinv_pylong_loop t2 (t1 - q * t2) r2 (r1 - q * r2)))"
      using "1.prems"(3,4) b by (intro "1.IH" [OF False q_def]) simp_all
    also have "modinv_pylong_loop t2 (t1 - q * t2) r2 (r1 - q * r2)
               = modinv_pylong_loop t1 t2 r1 r2"
      using False by (subst (2) modinv_pylong_loop.simps) (simp add: q_def Let_def)
    finally show ?thesis .
  qed
qed


lemma modinv_64_prime_loop_of_int:
  assumes "0 \<le> a" "a < 2 ^ 63" "0 \<le> c" "c < 2 ^ 63"
  shows "modinv_64_prime_loop (word_of_int u) (word_of_int w) (word_of_int a) (word_of_int c)
         = Inr (word_of_int (primeinv_pylong_loop u w a c))"
  using assms
proof (induction u w a c rule: primeinv_pylong_loop.induct)
  case (1 u w a c)
  show ?case
  proof (cases "c = 0")
    case True
    then show ?thesis
      by (subst modinv_64_prime_loop.simps, subst primeinv_pylong_loop.simps) simp
  next
    case False
    define q where "q = a div c"
    define r where "r = a mod c"
    from False "1.prems" have c: "0 < c" by simp
    have nz: "(word_of_int c :: i64) \<noteq> 0"
      using "1.prems" False by (simp add: i64_of_int_eq_0_iff)
    have d: "div_i64 (word_of_int a) (word_of_int c) = Inr (word_of_int q)"
      unfolding q_def using "1.prems"(1,2) c "1.prems"(4) by (rule div_i64_of_int)
    have m: "rem_i64 (word_of_int a) (word_of_int c) = Inr (word_of_int r)"
      unfolding r_def using "1.prems"(1,2) c "1.prems"(4) by (rule rem_i64_of_int)
    have "r < c" "0 \<le> r" using c by (simp_all add: r_def)
    with "1.prems"(4) have b: "0 \<le> r" "r < 2 ^ 63" by linarith+
    have "modinv_64_prime_loop (word_of_int u) (word_of_int w) (word_of_int a) (word_of_int c)
          = modinv_64_prime_loop (word_of_int w) (word_of_int (u - q * w))
              (word_of_int c) (word_of_int r)"
      using nz by (subst modinv_64_prime_loop.simps) (simp add: d m)
    also have "\<dots> = Inr (word_of_int (primeinv_pylong_loop w (u - q * w) c r))"
      using "1.prems"(3,4) b by (intro "1.IH" [OF False q_def r_def]) simp_all
    also have "primeinv_pylong_loop w (u - q * w) c r = primeinv_pylong_loop u w a c"
      using False by (subst (2) primeinv_pylong_loop.simps) (simp add: q_def r_def Let_def)
    finally show ?thesis .
  qed
qed

lemma modinv_pylong_loop_modinv:
  assumes "0 \<le> a" "0 < n"
  obtains t where "modinv_pylong_loop 0 1 n a = (t, gcd a n)" "n dvd t * a - gcd a n" "\<bar>t\<bar> \<le> n"
proof -
  have "case modinv_pylong_loop 0 1 n a of
          (t, g) \<Rightarrow> g = gcd n a \<and> n dvd t * a - g \<and> \<bar>t\<bar> \<le> n"
    using assms by (intro modinv_pylong_loop_inv) simp_all
  then show thesis
    by (cases "modinv_pylong_loop 0 1 n a") (auto simp: gcd.commute intro: that)
qed

lemma modinv_pylong_loop_primeinv:
  assumes "0 \<le> a" "0 < n"
  obtains u where "modinv_pylong_loop 1 0 a n = (u, gcd a n)" "n dvd u * a - gcd a n" "\<bar>u\<bar> \<le> n"
proof -
  have "case modinv_pylong_loop 1 0 a n of
          (t, g) \<Rightarrow> g = gcd a n \<and> n dvd t * a - g \<and> \<bar>t\<bar> \<le> n"
    using assms by (intro modinv_pylong_loop_inv) simp_all
  then show thesis
    by (cases "modinv_pylong_loop 1 0 a n") (auto intro: that)
qed

text \<open>For \<open>0 \<le> a < n\<close> the first iteration of the prime loop only swaps the pair.\<close>

lemma modinv_pylong_loop_swap:
  assumes "0 \<le> a" "a < n"
  shows "modinv_pylong_loop 1 0 a n = modinv_pylong_loop 0 1 n a"
  using assms by (subst modinv_pylong_loop.simps) (simp add: Let_def)


section \<open>The Python entry points \<^verbatim>\<open>modinv\<close> and \<^verbatim>\<open>primeinv\<close>\<close>

text \<open>
  The entry points take Python integers (the model's \<open>int\<close>; an argument tuple of the
  wrong shape or an object that is not exactly an \<^verbatim>\<open>int\<close> makes them return
  \<^verbatim>\<open>NULL\<close>, which is outside the integers the claims are about). The outcome of a call is
  a Python integer, \<^verbatim>\<open>None\<close>, a raised exception (a \<^verbatim>\<open>NULL\<close> return, or an object
  returned while the error indicator is set), or a fault of the fixed-width routine.

  Three functions of the CPython API are used by the dispatch and modelled here from
  their documentation: \<^verbatim>\<open>_PyLong_NumBits\<close> (the number of bits of the absolute value),
  \<^verbatim>\<open>PyLong_AsLongLong\<close> (the value, or \<open>-1\<close> with the error indicator set when it does
  not fit a \<^verbatim>\<open>long long\<close>) and \<^verbatim>\<open>PyLong_FromLongLong\<close> (in \<open>return_longlong\<close>).
\<close>

datatype pyresult = PyLong int | PyNone | PyException | Trap fault

function PyLong_NumBits :: "int \<Rightarrow> nat" where
  "PyLong_NumBits v = (if v = 0 then 0 else Suc (PyLong_NumBits (\<bar>v\<bar> div 2)))"
  by pat_completeness auto
termination
  by (relation "measure (\<lambda>v. nat \<bar>v\<bar>)") auto

declare PyLong_NumBits.simps [simp del]

definition PyLong_AsLongLong :: "int \<Rightarrow> i64 \<times> bool" where
  "PyLong_AsLongLong v =
     (if - (2 ^ 63) \<le> v \<and> v < 2 ^ 63 then (word_of_int v, False) else (- 1, True))"

definition return_longlong :: "fault + i64 \<Rightarrow> bool \<Rightarrow> pyresult" where
  "return_longlong res pending =
     (case res of
        Inl f \<Rightarrow> Trap f
      | Inr v \<Rightarrow> if pending then PyException else PyLong (sint v))"

definition modinv_pylong :: "int \<Rightarrow> int \<Rightarrow> pyresult" where
  "modinv_pylong ar nr =
     (case modinv_pylong_loop 0 1 nr ar of
        (t1, r1) \<Rightarrow>
          if 1 < r1 then PyNone
          else if t1 < 0 then PyLong (t1 + nr)
          else PyLong t1)"

definition modinv :: "int \<Rightarrow> int \<Rightarrow> pyresult" where
  "modinv ar nr =
     (if PyLong_NumBits ar \<le> 64 \<and> PyLong_NumBits nr \<le> 64 then
        (case PyLong_AsLongLong ar of
           (a, ea) \<Rightarrow>
             (case PyLong_AsLongLong nr of
                (n, en) \<Rightarrow> return_longlong (modinv_64 a n) (ea \<or> en)))
      else modinv_pylong ar nr)"

definition primeinv_pylong :: "int \<Rightarrow> int \<Rightarrow> pyresult" where
  "primeinv_pylong a n = PyLong (primeinv_pylong_loop 1 0 a n)"

definition primeinv :: "int \<Rightarrow> int \<Rightarrow> pyresult" where
  "primeinv ar nr =
     (if PyLong_NumBits ar \<le> 64 \<and> PyLong_NumBits nr \<le> 64 then
        (case PyLong_AsLongLong ar of
           (a, ea) \<Rightarrow>
             (case PyLong_AsLongLong nr of
                (n, en) \<Rightarrow> return_longlong (modinv_64_prime a n) (ea \<or> en)))
      else primeinv_pylong ar nr)"

lemma PyLong_NumBits_le_iff: "PyLong_NumBits v \<le> k \<longleftrightarrow> \<bar>v\<bar> < 2 ^ k"
proof (induction v arbitrary: k rule: PyLong_NumBits.induct)
  case (1 v)
  show ?case
  proof (cases "v = 0")
    case True
    then show ?thesis by (subst PyLong_NumBits.simps) simp
  next
    case False
    show ?thesis
    proof (cases k)
      case 0
      with False show ?thesis by (subst PyLong_NumBits.simps) simp
    next
      case (Suc j)
      have "PyLong_NumBits v \<le> Suc j \<longleftrightarrow> PyLong_NumBits (\<bar>v\<bar> div 2) \<le> j"
        using False by (subst PyLong_NumBits.simps) simp
      also have "\<dots> \<longleftrightarrow> \<bar>\<bar>v\<bar> div 2\<bar> < 2 ^ j"
        using False by (rule "1.IH")
      also have "\<dots> \<longleftrightarrow> \<bar>v\<bar> < 2 ^ Suc j"
        by (simp add: div_int_pos_iff) linarith
      finally show ?thesis by (simp only: Suc)
    qed
  qed
qed

lemma PyLong_NumBits_le_64: "PyLong_NumBits v \<le> 64 \<longleftrightarrow> \<bar>v\<bar> < 2 ^ 64"
  by (rule PyLong_NumBits_le_iff)

lemma modinv_64_of_int:
  assumes "0 \<le> a" "a < 2 ^ 63" "0 < n" "n < 2 ^ 63"
  obtains t where "modinv_pylong_loop 0 1 n a = (t, gcd a n)"
    and "n dvd t * a - gcd a n" and "\<bar>t\<bar> \<le> n"
    and "modinv_64 (word_of_int a) (word_of_int n)
         = Inr (if 1 < gcd a n then 0 else word_of_int (if t < 0 then t + n else t))"
proof -
  from assms(1,3) obtain t where t: "modinv_pylong_loop 0 1 n a = (t, gcd a n)"
    "n dvd t * a - gcd a n" "\<bar>t\<bar> \<le> n"
    by (rule modinv_pylong_loop_modinv)
  have "modinv_64_loop (word_of_int 0) (word_of_int 1) (word_of_int n) (word_of_int a)
        = Inr (map_prod word_of_int word_of_int (modinv_pylong_loop 0 1 n a))"
    using assms by (intro modinv_64_loop_of_int) simp_all
  then have loop: "modinv_64_loop 0 1 (word_of_int n) (word_of_int a)
        = Inr (word_of_int t, word_of_int (gcd a n))"
    by (simp add: t(1))
  have g: "0 \<le> gcd a n" "gcd a n \<le> n"
    using assms(3) by simp_all
  with assms(4) have "sint (word_of_int (gcd a n) :: i64) = gcd a n"
    by (intro sint_i64_of_nonneg) simp_all
  then have c1: "1 <s (word_of_int (gcd a n) :: i64) \<longleftrightarrow> 1 < gcd a n"
    by (simp add: word_sless_alt)
  have "sint (word_of_int t :: i64) = t"
    using t(3) assms(4) by (intro sint_i64_of_int) linarith+
  then have c2: "(word_of_int t :: i64) <s 0 \<longleftrightarrow> t < 0"
    by (simp add: word_sless_alt)
  have "modinv_64 (word_of_int a) (word_of_int n)
         = Inr (if 1 < gcd a n then 0 else word_of_int (if t < 0 then t + n else t))"
    by (simp add: modinv_64_def loop c1 c2)
  with t show thesis by (rule that)
qed



lemma modinv_pylong_loop_one:
  assumes "0 \<le> a" "a \<noteq> 1"
  shows "modinv_pylong_loop 0 1 1 a = (0, 1)"
proof (cases "a = 0")
  case True
  then show ?thesis by (subst modinv_pylong_loop.simps) simp
next
  case False
  with assms have a: "2 \<le> a" by simp
  then have "modinv_pylong_loop 0 1 1 a = modinv_pylong_loop 1 0 a 1"
    by (subst modinv_pylong_loop.simps) (simp add: Let_def)
  also have "\<dots> = modinv_pylong_loop 0 1 1 0"
    by (subst modinv_pylong_loop.simps) (simp add: Let_def)
  also have "\<dots> = (0, 1)"
    by (subst modinv_pylong_loop.simps) simp
  finally show ?thesis .
qed

lemma inverse_unique:
  fixes a n t t' :: int
  assumes "gcd a n = 1" "0 \<le> t" "t < n" "0 \<le> t'" "t' < n"
    "(a * t) mod n = 1 mod n" "(a * t') mod n = 1 mod n"
  shows "t' = t"
proof -
  from assms(6,7) have "(a * t) mod n = (a * t') mod n" by simp
  then have "n dvd a * t - a * t'" by (simp add: mod_eq_dvd_iff)
  then have "n dvd (t - t') * a" by (simp add: algebra_simps)
  moreover have "coprime n a" using assms(1) by (simp add: coprime_iff_gcd_eq_1 gcd.commute)
  ultimately have "n dvd t - t'" by (simp add: coprime_dvd_mult_left_iff)
  moreover have "\<bar>t - t'\<bar> < n" using assms(2-5) by linarith
  ultimately have "t - t' = 0" using zdvd_not_zless [of "\<bar>t - t'\<bar>" n] by auto
  then show ?thesis by simp
qed

lemma modinv_64_inverse_of_int:
  assumes "0 \<le> a" "a < 2 ^ 63" "0 < n" "n < 2 ^ 63" "gcd a n = 1" "\<not> (a = 1 \<and> n = 1)"
  obtains t0 t where "modinv_pylong_loop 0 1 n a = (t0, 1)"
    and "t = (if t0 < 0 then t0 + n else t0)"
    and "modinv_64 (word_of_int a) (word_of_int n) = Inr (word_of_int t)"
    and "modinv_pylong a n = PyLong t"
    and "0 \<le> t" and "t < n" and "(a * t) mod n = 1 mod n"
proof -
  from assms(1-4) obtain t0 where t0: "modinv_pylong_loop 0 1 n a = (t0, gcd a n)"
    "n dvd t0 * a - gcd a n" "\<bar>t0\<bar> \<le> n"
    "modinv_64 (word_of_int a) (word_of_int n)
         = Inr (if 1 < gcd a n then 0 else word_of_int (if t0 < 0 then t0 + n else t0))"
    by (rule modinv_64_of_int)
  define t where "t = (if t0 < 0 then t0 + n else t0)"
  have r: "modinv_64 (word_of_int a) (word_of_int n) = Inr (word_of_int t)"
    using t0(4) assms(5) by (simp add: t_def)
  have p: "modinv_pylong a n = PyLong t"
    using t0(1) assms(5) by (simp add: modinv_pylong_def t_def)
  have lo: "0 \<le> t" using t0(3) by (auto simp: t_def)
  have hi: "t \<le> n" using t0(3) assms(3) by (auto simp: t_def)
  have d0: "n dvd t0 * a - 1" using t0(2) assms(5) by simp
  have d: "n dvd t * a - 1"
  proof (cases "t0 < 0")
    case True
    have "n dvd (t0 * a - 1) + n * a" using d0 by (intro dvd_add) simp_all
    also have "(t0 * a - 1) + n * a = t * a - 1" using True by (simp add: t_def algebra_simps)
    finally show ?thesis .
  next
    case False
    with d0 show ?thesis by (simp add: t_def)
  qed
  then have m: "(a * t) mod n = 1 mod n"
    by (simp add: mod_eq_dvd_iff mult.commute)
  have "t \<noteq> n"
  proof (cases "n = 1")
    case True
    with assms(6) have "a \<noteq> 1" by simp
    with assms(1) have "modinv_pylong_loop 0 1 1 a = (0, 1)" by (rule modinv_pylong_loop_one)
    with t0(1) True have "t0 = 0" by simp
    with True show ?thesis by (simp add: t_def)
  next
    case False
    show ?thesis
    proof
      assume "t = n"
      with d have d1: "n dvd n * a - 1" by simp
      have "n dvd n * a" by simp
      from this d1 have "n dvd n * a - (n * a - 1)" by (rule dvd_diff)
      then have "n dvd 1" by simp
      with assms(3) False show False by simp
    qed
  qed
  with hi have "t < n" by simp
  moreover have "modinv_pylong_loop 0 1 n a = (t0, 1)" using t0(1) assms(5) by simp
  ultimately show thesis using t_def r p lo m by (intro that)
qed


text \<open>Primality, as the claims use it: no divisor strictly between 1 and \<open>p\<close>.\<close>

definition is_prime :: "int \<Rightarrow> bool" where
  "is_prime p \<longleftrightarrow> 1 < p \<and> (\<forall>m \<in> {2..<p}. \<not> m dvd p)"

lemma is_prime_coprime:
  assumes "is_prime p" "0 < a" "a < p"
  shows "gcd a p = 1"
proof (rule ccontr)
  assume ne: "gcd a p \<noteq> 1"
  have "0 \<le> gcd a p" by simp
  moreover have "gcd a p \<noteq> 0" using assms(2) by simp
  ultimately have "2 \<le> gcd a p" using ne by linarith
  moreover have "gcd a p \<le> a" using assms(2) by (intro gcd_le1_int)
  ultimately have "gcd a p \<in> {2..<p}" using assms(3) by simp
  with assms(1) have "\<not> gcd a p dvd p" unfolding is_prime_def by blast
  then show False by simp
qed

lemma modinv_64_prime_of_int:
  assumes "0 \<le> a" "a < 2 ^ 63" "0 < n" "n < 2 ^ 63"
  obtains u where "modinv_pylong_loop 1 0 a n = (u, gcd a n)"
    and "modinv_64_prime (word_of_int a) (word_of_int n) = Inr (word_of_int u)"
    and "primeinv_pylong a n = PyLong u"
    and "n dvd u * a - gcd a n" and "\<bar>u\<bar> \<le> n"
proof -
  from assms(1,3) obtain u where u: "modinv_pylong_loop 1 0 a n = (u, gcd a n)"
    "n dvd u * a - gcd a n" "\<bar>u\<bar> \<le> n"
    by (rule modinv_pylong_loop_primeinv)
  have pl: "primeinv_pylong_loop 1 0 a n = u"
    by (simp add: primeinv_pylong_loop_eq u(1))
  have "modinv_64_prime_loop (word_of_int 1) (word_of_int 0) (word_of_int a) (word_of_int n)
        = Inr (word_of_int (primeinv_pylong_loop 1 0 a n))"
    using assms by (intro modinv_64_prime_loop_of_int) simp_all
  then have "modinv_64_prime (word_of_int a) (word_of_int n) = Inr (word_of_int u)"
    by (simp add: modinv_64_prime_def pl)
  moreover have "primeinv_pylong a n = PyLong u"
    by (simp add: primeinv_pylong_def pl)
  ultimately show thesis using u by (intro that)
qed

lemma i64_nonneg_range:
  assumes "0 \<le>s (a :: i64)"
  shows "0 \<le> sint a" "sint a < 2 ^ 63"
  using assms sint_i64_bounds(2) [of a] by (simp_all add: word_sle_eq)

lemma i64_pos_range:
  assumes "0 <s (a :: i64)"
  shows "0 < sint a" "sint a < 2 ^ 63"
  using assms sint_i64_bounds(2) [of a] by (simp_all add: word_sless_alt)

lemma i64_one_iff: "(a :: i64) = 1 \<longleftrightarrow> sint a = 1"
  using i64_eqI [of a 1] by auto


section \<open>The general inverse\<close>

text \<open>
  Claim C1, as amended. For \<^verbatim>\<open>int64_t\<close> operands \<open>a \<ge> 0\<close> and \<open>n > 0\<close> with
  \<open>gcd a n = 1\<close>, other than \<open>a = n = 1\<close>, \<^verbatim>\<open>modinv_64\<close> returns the unique \<open>t\<close> in
  \<open>[0, n)\<close> with \<open>a * t \<equiv> 1 (mod n)\<close>; in particular for \<open>n = 1\<close> every \<open>a \<ge> 0\<close> other
  than 1 maps to 0.
\<close>

theorem modinv_64_inverse:
  assumes "0 \<le>s a" "0 <s n" "gcd (sint a) (sint n) = 1" "\<not> (a = 1 \<and> n = 1)"
  shows "\<exists>t. modinv_64 a n = Inr t \<and> 0 \<le> sint t \<and> sint t < sint n \<and>
           (sint a * sint t) mod sint n = 1 mod sint n \<and>
           (\<forall>t'. 0 \<le> t' \<and> t' < sint n \<and> (sint a * t') mod sint n = 1 mod sint n
                 \<longrightarrow> t' = sint t)"
proof -
  note a = i64_nonneg_range [OF assms(1)] and n = i64_pos_range [OF assms(2)]
  from assms(4) have ne: "\<not> (sint a = 1 \<and> sint n = 1)" by (simp add: i64_one_iff)
  from a n assms(3) ne obtain t0 t
    where t: "modinv_64 (word_of_int (sint a)) (word_of_int (sint n)) = Inr (word_of_int t)"
      "0 \<le> t" "t < sint n" "(sint a * t) mod sint n = 1 mod sint n"
    by (rule modinv_64_inverse_of_int)
  from t(2,3) n(2) have s: "sint (word_of_int t :: i64) = t"
    by (intro sint_i64_of_nonneg) simp_all
  have u: "t' = t" if "0 \<le> t'" "t' < sint n" "(sint a * t') mod sint n = 1 mod sint n" for t'
    using assms(3) t(2,3) that(1,2) t(4) that(3) by (rule inverse_unique)
  from t(1) have r: "modinv_64 a n = Inr (word_of_int t)" by simp
  show ?thesis
  proof (intro exI conjI allI impI)
    show "modinv_64 a n = Inr (word_of_int t)" by (rule r)
    show "0 \<le> sint (word_of_int t :: i64)" using t(2) by (simp only: s)
    show "sint (word_of_int t :: i64) < sint n" using t(3) by (simp only: s)
    show "(sint a * sint (word_of_int t :: i64)) mod sint n = 1 mod sint n"
      using t(4) by (simp only: s)
    show "t' = sint (word_of_int t :: i64)"
      if "0 \<le> t' \<and> t' < sint n \<and> (sint a * t') mod sint n = 1 mod sint n" for t'
      using that u by (simp only: s)
  qed
qed

theorem modinv_64_inverse_witness:
  "(0 :: i64) \<le>s 3 \<and> (0 :: i64) <s 11 \<and> gcd (sint (3 :: i64)) (sint (11 :: i64)) = 1 \<and>
   modinv_64 3 11 = Inr 4 \<and> (sint (3 :: i64) * sint (4 :: i64)) mod sint (11 :: i64) = 1 \<and>
   (\<exists>t. modinv_64 3 11 = Inr t \<and> 0 \<le> sint t \<and> sint t < sint (11 :: i64))"
proof -
  have h1: "(0 :: i64) \<le>s 3" by (simp add: word_sle_eq)
  have h2: "(0 :: i64) <s 11" by (simp add: word_sless_alt)
  have h3: "gcd (sint (3 :: i64)) (sint (11 :: i64)) = 1" by code_simp
  have h4: "\<not> ((3 :: i64) = 1 \<and> (11 :: i64) = 1)" by simp
  have v: "modinv_64 3 11 = Inr 4" by code_simp
  have m: "(sint (3 :: i64) * sint (4 :: i64)) mod sint (11 :: i64) = 1" by simp
  from modinv_64_inverse [OF h1 h2 h3 h4] h1 h2 h3 v m show ?thesis by blast
qed

text \<open>
  As stated for all integers, C1 fails: \<^verbatim>\<open>modinv_64(1, 1)\<close> is 1, outside \<open>[0, 1)\<close>, and for
  the negative operand \<open>-1\<close> modulo 3 the result 1 is not an inverse
  (\<open>-1 * 1 \<equiv> 2\<close>).
\<close>

theorem modinv_64_inverse_counterexample:
  "gcd (sint (1 :: i64)) (sint (1 :: i64)) = 1 \<and> modinv_64 1 1 = Inr 1 \<and>
   gcd (sint (- 1 :: i64)) (sint (3 :: i64)) = 1 \<and> modinv_64 (- 1) 3 = Inr 1 \<and>
   (sint (- 1 :: i64) * sint (1 :: i64)) mod sint (3 :: i64) = 2"
proof -
  have "modinv_64 1 1 = Inr 1" by code_simp
  moreover have "modinv_64 (- 1) 3 = Inr 1" by code_simp
  moreover have "gcd (sint (1 :: i64)) (sint (1 :: i64)) = 1" by simp
  moreover have "gcd (sint (- 1 :: i64)) (sint (3 :: i64)) = 1" by simp
  moreover have "(sint (- 1 :: i64) * sint (1 :: i64)) mod sint (3 :: i64) = 2" by simp
  ultimately show ?thesis by blast
qed

lemma inverse_coprime:
  fixes a t n :: int
  assumes "(a * t) mod n = 1 mod n"
  shows "gcd t n = 1"
proof -
  from assms have d: "n dvd a * t - 1" by (simp add: mod_eq_dvd_iff)
  have "gcd t n dvd a * t" by simp
  moreover have "gcd t n dvd a * t - 1" using d by (rule dvd_trans [OF gcd_dvd2])
  ultimately have "gcd t n dvd a * t - (a * t - 1)" by (rule dvd_diff)
  then have "gcd t n dvd 1" by simp
  then show ?thesis by simp
qed

text \<open>
  Claim C8, as amended. Round trip: for \<^verbatim>\<open>int64_t\<close> operands \<open>a \<ge> 0\<close> and \<open>n > 0\<close> with
  \<open>gcd a n = 1\<close>, other than \<open>a = n = 1\<close>, both calls return and
  \<^verbatim>\<open>modinv_64(modinv_64(a, n), n)\<close> is \<open>a mod n\<close>.
\<close>

theorem modinv_64_round_trip:
  assumes "0 \<le>s a" "0 <s n" "gcd (sint a) (sint n) = 1" "\<not> (a = 1 \<and> n = 1)"
  shows "\<exists>t r. modinv_64 a n = Inr t \<and> modinv_64 t n = Inr r \<and> sint r = sint a mod sint n"
proof -
  note a = i64_nonneg_range [OF assms(1)] and n = i64_pos_range [OF assms(2)]
  from assms(4) have ne: "\<not> (sint a = 1 \<and> sint n = 1)" by (simp add: i64_one_iff)
  from a n assms(3) ne obtain t0 t
    where t: "modinv_64 (word_of_int (sint a)) (word_of_int (sint n)) = Inr (word_of_int t)"
      "0 \<le> t" "t < sint n" "(sint a * t) mod sint n = 1 mod sint n"
    by (rule modinv_64_inverse_of_int)
  from t(4) have g: "gcd t (sint n) = 1" by (rule inverse_coprime)
  from t(3) n(2) have tr: "t < 2 ^ 63" by simp
  from t(3) have ne': "\<not> (t = 1 \<and> sint n = 1)" by simp
  from t(2) tr n g ne' obtain r0 r
    where r: "modinv_64 (word_of_int t) (word_of_int (sint n)) = Inr (word_of_int r)"
      "0 \<le> r" "r < sint n" "(t * r) mod sint n = 1 mod sint n"
    by (rule modinv_64_inverse_of_int)
  have m: "(t * (sint a mod sint n)) mod sint n = 1 mod sint n"
    using t(4) by (simp add: mod_mult_right_eq mult.commute)
  have "sint a mod sint n = r"
    using g r(2,3) _ _ r(4) m
  proof (rule inverse_unique)
    show "0 \<le> sint a mod sint n" "sint a mod sint n < sint n" using n(1) by simp_all
  qed
  moreover have "sint (word_of_int r :: i64) = r"
    using r(2,3) n(2) by (intro sint_i64_of_nonneg) simp_all
  ultimately have "sint (word_of_int r :: i64) = sint a mod sint n" by simp
  moreover from t(1) have "modinv_64 a n = Inr (word_of_int t)" by simp
  moreover from r(1) have "modinv_64 (word_of_int t) n = Inr (word_of_int r)" by simp
  ultimately show ?thesis by blast
qed

theorem modinv_64_round_trip_witness:
  "(0 :: i64) \<le>s 3 \<and> (0 :: i64) <s 11 \<and> gcd (sint (3 :: i64)) (sint (11 :: i64)) = 1 \<and>
   modinv_64 3 11 = Inr 4 \<and> modinv_64 4 11 = Inr 3 \<and>
   (\<exists>t r. modinv_64 3 11 = Inr t \<and> modinv_64 t 11 = Inr r \<and>
          sint r = sint (3 :: i64) mod sint (11 :: i64))"
proof -
  have h1: "(0 :: i64) \<le>s 3" by (simp add: word_sle_eq)
  have h2: "(0 :: i64) <s 11" by (simp add: word_sless_alt)
  have h3: "gcd (sint (3 :: i64)) (sint (11 :: i64)) = 1" by code_simp
  have h4: "\<not> ((3 :: i64) = 1 \<and> (11 :: i64) = 1)" by simp
  have v: "modinv_64 3 11 = Inr 4" by code_simp
  have w: "modinv_64 4 11 = Inr 3" by code_simp
  from modinv_64_round_trip [OF h1 h2 h3 h4] h1 h2 h3 v w show ?thesis by blast
qed

text \<open>
  As stated, C8 fails at \<open>a = n = 1\<close> (the round trip gives 1, and \<open>1 mod 1 = 0\<close>) and
  at the negative operand \<open>-1\<close> modulo 3 (the round trip gives 1, and \<open>-1 mod 3 = 2\<close>).
\<close>

theorem modinv_64_round_trip_counterexample:
  "gcd (sint (1 :: i64)) (sint (1 :: i64)) = 1 \<and> modinv_64 1 1 = Inr 1 \<and>
   sint (1 :: i64) mod sint (1 :: i64) = 0 \<and>
   gcd (sint (- 1 :: i64)) (sint (3 :: i64)) = 1 \<and> modinv_64 (- 1) 3 = Inr 1 \<and>
   modinv_64 1 3 = Inr 1 \<and> sint (- 1 :: i64) mod sint (3 :: i64) = 2"
proof -
  have "modinv_64 1 1 = Inr 1" by code_simp
  moreover have "modinv_64 (- 1) 3 = Inr 1" by code_simp
  moreover have "modinv_64 1 3 = Inr 1" by code_simp
  moreover have "gcd (sint (1 :: i64)) (sint (1 :: i64)) = 1" by simp
  moreover have "gcd (sint (- 1 :: i64)) (sint (3 :: i64)) = 1" by simp
  moreover have "sint (1 :: i64) mod sint (1 :: i64) = 0" by simp
  moreover have "sint (- 1 :: i64) mod sint (3 :: i64) = 2" by simp
  ultimately show ?thesis by blast
qed


section \<open>No inverse\<close>

lemma PyLong_AsLongLong_fits:
  "- (2 ^ 63) \<le> v \<Longrightarrow> v < 2 ^ 63 \<Longrightarrow> PyLong_AsLongLong v = (word_of_int v, False)"
  by (simp add: PyLong_AsLongLong_def)

lemma modinv_fits:
  assumes "0 \<le> a" "a < 2 ^ 63" "0 \<le> n" "n < 2 ^ 63"
  shows "modinv a n = return_longlong (modinv_64 (word_of_int a) (word_of_int n)) False"
proof -
  have "\<bar>a\<bar> < 2 ^ 64" "\<bar>n\<bar> < 2 ^ 64" using assms by simp_all
  then have "PyLong_NumBits a \<le> 64" "PyLong_NumBits n \<le> 64"
    by (simp_all add: PyLong_NumBits_le_64)
  moreover have "PyLong_AsLongLong a = (word_of_int a, False)"
    "PyLong_AsLongLong n = (word_of_int n, False)"
    using assms by (simp_all add: PyLong_AsLongLong_fits)
  ultimately show ?thesis by (simp add: modinv_def)
qed

text \<open>
  Where no inverse exists the two branches of \<^verbatim>\<open>modinv\<close> answer differently. For
  operands \<open>0 \<le> a < 2\<^sup>6\<^sup>3\<close> and \<open>0 < n < 2\<^sup>6\<^sup>3\<close> with \<open>gcd a n > 1\<close> the fixed-width
  routine, and with it the entry point, returns the integer 0; beyond 64 bits the
  arbitrary-precision branch returns \<^verbatim>\<open>None\<close>.
\<close>

lemma modinv_fixed_width_no_inverse:
  assumes "0 \<le> a" "a < 2 ^ 63" "0 < n" "n < 2 ^ 63" "1 < gcd a n"
  shows "modinv_64 (word_of_int a) (word_of_int n) = Inr 0 \<and> modinv a n = PyLong 0"
proof -
  from assms(1-4) obtain t where
    "modinv_64 (word_of_int a) (word_of_int n)
         = Inr (if 1 < gcd a n then 0 else word_of_int (if t < 0 then t + n else t))"
    by (rule modinv_64_of_int)
  with assms(5) have r: "modinv_64 (word_of_int a) (word_of_int n) = Inr 0" by simp
  moreover have "modinv a n = PyLong 0"
    using assms(1-4) by (simp add: modinv_fits r return_longlong_def)
  ultimately show ?thesis by simp
qed

lemma modinv_pylong_no_inverse:
  assumes "0 \<le> a" "0 < n" "1 < gcd a n"
  shows "modinv_pylong a n = PyNone"
proof -
  from assms(1,2) obtain t where "modinv_pylong_loop 0 1 n a = (t, gcd a n)"
    by (rule modinv_pylong_loop_modinv)
  with assms(3) show ?thesis by (simp add: modinv_pylong_def)
qed

lemma modinv_wide_no_inverse:
  assumes "0 \<le> a" "0 < n" "1 < gcd a n" "2 ^ 64 \<le> a \<or> 2 ^ 64 \<le> n"
  shows "modinv a n = PyNone"
proof -
  from assms(1,2,4) have "\<not> (PyLong_NumBits a \<le> 64 \<and> PyLong_NumBits n \<le> 64)"
    by (auto simp: PyLong_NumBits_le_64)
  then have "modinv a n = modinv_pylong a n" by (auto simp: modinv_def)
  with assms(1-3) show ?thesis by (simp add: modinv_pylong_no_inverse)
qed

text \<open>
  Claim C2 says that for \<open>gcd a n > 1\<close> \<^verbatim>\<open>mod_inv\<close> signals that no inverse exists by a
  distinguished outcome that is not an integer. The arbitrary-precision branch of
  \<^verbatim>\<open>modinv\<close> does so (\<^verbatim>\<open>None\<close> for \<open>(6 * 2\<^sup>6\<^sup>4, 9 * 2\<^sup>6\<^sup>4)\<close>); the fixed-width branch
  of the same function does not: on the spec's own scenario \<^verbatim>\<open>modinv(6, 9)\<close>, with
  \<open>gcd 6 9 = 3\<close>, it returns the ordinary integer 0.
\<close>

theorem modinv_no_inverse_returns_zero:
  "gcd (6 :: int) 9 = 3 \<and> modinv_64 6 9 = Inr 0 \<and> modinv 6 9 = PyLong 0 \<and>
   gcd (6 * 2 ^ 64 :: int) (9 * 2 ^ 64) = 3 * 2 ^ 64 \<and>
   modinv (6 * 2 ^ 64) (9 * 2 ^ 64) = PyNone"
proof -
  have "gcd (6 :: int) 9 = 3" by code_simp
  moreover have "modinv_64 6 9 = Inr 0" by code_simp
  moreover have "modinv 6 9 = PyLong 0" by code_simp
  moreover have "gcd (6 * 2 ^ 64 :: int) (9 * 2 ^ 64) = 3 * 2 ^ 64" by code_simp
  moreover have "modinv (6 * 2 ^ 64) (9 * 2 ^ 64) = PyNone" by code_simp
  ultimately show ?thesis by blast
qed


section \<open>The inverse for a prime modulus\<close>

lemma is_prime_11: "is_prime 11"
  by code_simp

lemma modinv_64_prime_inverse_of_int:
  assumes "is_prime n" "0 < a" "a < n" "n < 2 ^ 63"
  obtains u t where "modinv_64_prime (word_of_int a) (word_of_int n) = Inr (word_of_int u)"
    and "modinv_64 (word_of_int a) (word_of_int n) = Inr (word_of_int t)"
    and "\<bar>u\<bar> \<le> n" and "(a * u) mod n = 1" and "0 \<le> t" and "t < n" and "t = u mod n"
proof -
  from assms(1) have n1: "1 < n" by (simp add: is_prime_def)
  from assms(1-3) have g: "gcd a n = 1" by (rule is_prime_coprime)
  have a: "0 \<le> a" "a < 2 ^ 63" "0 < n" using assms(2-4) by simp_all
  from a assms(4) obtain u where u: "modinv_pylong_loop 1 0 a n = (u, gcd a n)"
    "modinv_64_prime (word_of_int a) (word_of_int n) = Inr (word_of_int u)"
    "n dvd u * a - gcd a n" "\<bar>u\<bar> \<le> n"
    by (rule modinv_64_prime_of_int)
  have ne: "\<not> (a = 1 \<and> n = 1)" using n1 by simp
  from a assms(4) g ne obtain t0 t where t: "modinv_pylong_loop 0 1 n a = (t0, 1)"
    "t = (if t0 < 0 then t0 + n else t0)"
    "modinv_64 (word_of_int a) (word_of_int n) = Inr (word_of_int t)"
    "0 \<le> t" "t < n"
    by (rule modinv_64_inverse_of_int)
  have "modinv_pylong_loop 1 0 a n = modinv_pylong_loop 0 1 n a"
    using a(1) assms(3) by (rule modinv_pylong_loop_swap)
  with u(1) t(1) have eq: "t0 = u" by simp
  have tm: "t = u mod n"
  proof (cases "u < 0")
    case True
    with t(2) eq have tu: "t = u + n" by simp
    with t(4,5) have "(u + n) mod n = u + n" by (intro mod_pos_pos_trivial) simp_all
    moreover have "(u + n) mod n = u mod n" by simp
    ultimately show ?thesis using tu by simp
  next
    case False
    with t(2) eq have "t = u" by simp
    with t(4,5) show ?thesis by simp
  qed
  from u(3) g have "n dvd a * u - 1" by (simp add: mult.commute)
  then have "(a * u) mod n = 1 mod n" by (simp add: mod_eq_dvd_iff)
  with n1 have m: "(a * u) mod n = 1" by simp
  from u(2) t(3) u(4) m t(4,5) tm show thesis by (rule that)
qed

text \<open>
  Claim C10. For every prime \<open>n\<close> and every \<open>0 < a < n\<close> (\<^verbatim>\<open>int64_t\<close> operands)
  \<^verbatim>\<open>modinv_64_prime\<close> returns a \<open>u\<close> with \<open>a * u \<equiv> 1 (mod n)\<close>; the result is not
  normalised into \<open>[0, n)\<close>: \<^verbatim>\<open>modinv_64_prime(2, 11)\<close> is \<open>-5\<close>.
\<close>

theorem modinv_64_prime_inverse:
  "(is_prime (sint n) \<and> 0 <s a \<and> a <s n \<longrightarrow>
     (\<exists>u. modinv_64_prime a n = Inr u \<and> (sint a * sint u) mod sint n = 1)) \<and>
   modinv_64_prime 2 11 = Inr (- 5)"
proof (intro conjI impI)
  assume h: "is_prime (sint n) \<and> 0 <s a \<and> a <s n"
  then have a: "0 < sint a" "sint a < sint n" by (simp_all add: word_sless_alt)
  from h a sint_i64_bounds(2) [of n] obtain u t
    where u: "modinv_64_prime (word_of_int (sint a)) (word_of_int (sint n)) = Inr (word_of_int u)"
      "\<bar>u\<bar> \<le> sint n" "(sint a * u) mod sint n = 1"
    by (blast intro: modinv_64_prime_inverse_of_int)
  have "sint (word_of_int u :: i64) = u"
    using u(2) sint_i64_bounds(2) [of n] by (intro sint_i64_of_int) linarith+
  with u(3) have "(sint a * sint (word_of_int u :: i64)) mod sint n = 1" by simp
  moreover from u(1) have "modinv_64_prime a n = Inr (word_of_int u)" by simp
  ultimately show "\<exists>u. modinv_64_prime a n = Inr u \<and> (sint a * sint u) mod sint n = 1"
    by blast
next
  show "modinv_64_prime 2 11 = Inr (- 5)" by code_simp
qed

theorem modinv_64_prime_inverse_witness:
  "is_prime (sint (11 :: i64)) \<and> (0 :: i64) <s 2 \<and> (2 :: i64) <s 11 \<and>
   modinv_64_prime 2 11 = Inr (- 5) \<and> sint (- 5 :: i64) = - 5 \<and>
   (\<exists>u. modinv_64_prime 2 11 = Inr u \<and> (sint (2 :: i64) * sint u) mod sint (11 :: i64) = 1)"
proof -
  have p: "is_prime (sint (11 :: i64))" using is_prime_11 by simp
  have h1: "(0 :: i64) <s 2" by (simp add: word_sless_alt)
  have h2: "(2 :: i64) <s 11" by (simp add: word_sless_alt)
  have s: "sint (- 5 :: i64) = - 5" by simp
  from modinv_64_prime_inverse [of 11 2] p h1 h2 s show ?thesis by blast
qed

text \<open>
  Claim C4, as amended. For every prime \<open>p\<close> and every \<open>0 < a < p\<close> (\<^verbatim>\<open>int64_t\<close>
  operands) both routines return, and the result of \<^verbatim>\<open>modinv_64\<close> is the result of
  \<^verbatim>\<open>modinv_64_prime\<close> reduced modulo \<open>p\<close>: they agree modulo \<open>p\<close>, and are equal when
  the latter is not negative.
\<close>

theorem prime_inverse_agrees_modulo:
  assumes "is_prime (sint p)" "0 <s a" "a <s p"
  shows "\<exists>u t. modinv_64_prime a p = Inr u \<and> modinv_64 a p = Inr t \<and>
           sint t = sint u mod sint p"
proof -
  from assms have a: "0 < sint a" "sint a < sint p" by (simp_all add: word_sless_alt)
  note pb = sint_i64_bounds(2) [of p]
  from assms(1) a pb obtain u t
    where u: "modinv_64_prime (word_of_int (sint a)) (word_of_int (sint p)) = Inr (word_of_int u)"
      "modinv_64 (word_of_int (sint a)) (word_of_int (sint p)) = Inr (word_of_int t)"
      "\<bar>u\<bar> \<le> sint p" "0 \<le> t" "t < sint p" "t = u mod sint p"
    by (blast intro: modinv_64_prime_inverse_of_int)
  have su: "sint (word_of_int u :: i64) = u"
    using u(3) pb by (intro sint_i64_of_int) linarith+
  have st: "sint (word_of_int t :: i64) = t"
    using u(4,5) pb by (intro sint_i64_of_nonneg) linarith+
  from u(1) have "modinv_64_prime a p = Inr (word_of_int u)" by simp
  moreover from u(2) have "modinv_64 a p = Inr (word_of_int t)" by simp
  moreover have "sint (word_of_int t :: i64) = sint (word_of_int u :: i64) mod sint p"
    unfolding su st by (rule u(6))
  ultimately show ?thesis by blast
qed

theorem prime_inverse_agrees_modulo_witness:
  "is_prime (sint (11 :: i64)) \<and> (0 :: i64) <s 2 \<and> (2 :: i64) <s 11 \<and>
   modinv_64_prime 2 11 = Inr (- 5) \<and> modinv_64 2 11 = Inr 6 \<and>
   (\<exists>u t. modinv_64_prime 2 11 = Inr u \<and> modinv_64 2 11 = Inr t \<and>
      sint t = sint u mod sint (11 :: i64))"
proof -
  have p: "is_prime (sint (11 :: i64))" using is_prime_11 by simp
  have h1: "(0 :: i64) <s 2" by (simp add: word_sless_alt)
  have h2: "(2 :: i64) <s 11" by (simp add: word_sless_alt)
  have v: "modinv_64_prime 2 11 = Inr (- 5)" by code_simp
  have w: "modinv_64 2 11 = Inr 6" by code_simp
  from prime_inverse_agrees_modulo [OF p h1 h2] p h1 h2 v w show ?thesis by blast
qed

text \<open>
  As stated, C4 fails at the spec's own scenario: the prime routine gives \<open>-5\<close> for
  \<open>(2, 11)\<close>, the general one 6, in the fixed-width routines and at the entry points.
\<close>

theorem prime_inverse_agrees_counterexample:
  "is_prime 11 \<and> modinv_64_prime 2 11 = Inr (- 5) \<and> modinv_64 2 11 = Inr 6 \<and>
   primeinv 2 11 = PyLong (- 5) \<and> modinv 2 11 = PyLong 6"
proof -
  have "modinv_64_prime 2 11 = Inr (- 5)" by code_simp
  moreover have "modinv_64 2 11 = Inr 6" by code_simp
  moreover have "primeinv 2 11 = PyLong (- 5)" by code_simp
  moreover have "modinv 2 11 = PyLong 6" by code_simp
  ultimately show ?thesis using is_prime_11 by blast
qed


section \<open>\<^verbatim>\<open>modexp_64\<close> and the entry point \<^verbatim>\<open>modexp\<close>\<close>

text \<open>
  \<^verbatim>\<open>int64_t mask = 1 << bits;\<close> The literal 1 is an \<^verbatim>\<open>int\<close> of 32 bits, so the shift is
  done on 32 bits and the result widened with its sign. A count below 0 or above 31 is
  undefined in C++: the model gives the mask no value (\<open>None\<close>) and faults only where
  the mask is read.
\<close>

definition shl_int_one :: "i64 \<Rightarrow> i64 option" where
  "shl_int_one bits =
     (if 0 \<le>s bits \<and> bits <s 32
      then Some (scast (push_bit (nat (sint bits)) (1 :: 32 word)))
      else None)"

text \<open>
  The loop \<^verbatim>\<open>for (int i = 0; i <= bits; ++i) { r = r * r % p; if (k & mask) r = r * g % p;
  mask >>= 1; }\<close>. The counter is compared with \<^verbatim>\<open>bits\<close> as a 64-bit value; it stays
  below 64, since \<^verbatim>\<open>bits\<close> is a bit length minus 2, so it is modelled as an \<open>int\<close>.
\<close>

function modexp_64_loop ::
  "i64 \<Rightarrow> i64 \<Rightarrow> i64 \<Rightarrow> i64 \<Rightarrow> i64 option \<Rightarrow> int \<Rightarrow> i64 \<Rightarrow> fault + i64" where
  "modexp_64_loop g k p bits msk i r =
     (if i \<le> sint bits then
        (case rem_i64 (r * r) p of
           Inl e \<Rightarrow> Inl e
         | Inr r1 \<Rightarrow>
             (case msk of
                None \<Rightarrow> Inl UndefinedShift
              | Some m \<Rightarrow>
                  (case (if k AND m \<noteq> 0 then rem_i64 (r1 * g) p else Inr r1) of
                     Inl e \<Rightarrow> Inl e
                   | Inr r2 \<Rightarrow>
                       modexp_64_loop g k p bits (Some (signed_drop_bit 1 m)) (i + 1) r2)))
      else Inr r)"
  by pat_completeness auto
termination
  by (relation "measure (\<lambda>(g, k, p, bits, msk, i, r). nat (sint bits + 1 - i))") auto

declare modexp_64_loop.simps [simp del]

text \<open>
  \<^verbatim>\<open>modexp_64\<close>: \<^verbatim>\<open>r = g; k %= (p - 1); bits = bit_length(k) - 2; mask = 1 << bits;\<close> then
  the loop, then \<^verbatim>\<open>return r\<close>. There is no check of \<open>p\<close>.
\<close>

definition modexp_64 :: "i64 \<Rightarrow> i64 \<Rightarrow> i64 \<Rightarrow> fault + i64" where
  "modexp_64 g k p =
     (case rem_i64 k (p - 1) of
        Inl e \<Rightarrow> Inl e
      | Inr k' \<Rightarrow>
          (let bits = bit_length k' - 2;
               msk = shl_int_one bits
           in modexp_64_loop g k' p bits msk 0 g))"

text \<open>
  The entry point \<^verbatim>\<open>modexp\<close> has the fixed-width path only: operands beyond 64 bits
  fall through to \<^verbatim>\<open>return NULL\<close>.
\<close>

definition modexp :: "int \<Rightarrow> int \<Rightarrow> int \<Rightarrow> pyresult" where
  "modexp gr kr pr =
     (if PyLong_NumBits gr \<le> 64 \<and> PyLong_NumBits kr \<le> 64 then
        (if PyLong_NumBits pr \<le> 64 then
           (case PyLong_AsLongLong gr of
              (g, eg) \<Rightarrow>
                (case PyLong_AsLongLong kr of
                   (k, ek) \<Rightarrow>
                     (case PyLong_AsLongLong pr of
                        (p, ep) \<Rightarrow> return_longlong (modexp_64 g k p) (eg \<or> ek \<or> ep))))
         else PyException)
      else PyException)"

subsection \<open>Square and multiply on 64 bits\<close>

lemma sint_i64_pow2: "n < 63 \<Longrightarrow> sint (2 ^ n :: i64) = 2 ^ n"
proof -
  assume n: "n < 63"
  have "(2 :: int) ^ n < 2 ^ 63" using n by (intro power_strict_increasing) simp_all
  then have "sint (word_of_int (2 ^ n) :: i64) = 2 ^ n"
    by (intro sint_i64_of_nonneg) simp_all
  then show ?thesis by simp
qed

lemma signed_drop_bit_pow2: "Suc n < 63 \<Longrightarrow> signed_drop_bit 1 (2 ^ Suc n :: i64) = 2 ^ n"
proof (rule i64_eqI)
  assume n: "Suc n < 63"
  then have "sint (signed_drop_bit 1 (2 ^ Suc n :: i64)) = 2 ^ Suc n div 2"
    by (simp only: sint_halve sint_i64_pow2)
  also have "\<dots> = sint (2 ^ n :: i64)" using n by (simp add: sint_i64_pow2)
  finally show "sint (signed_drop_bit 1 (2 ^ Suc n :: i64)) = sint (2 ^ n :: i64)" .
qed

lemma and_pow2_iff:
  assumes "n < 63"
  shows "(word_of_int K :: i64) AND 2 ^ n \<noteq> 0 \<longleftrightarrow> bit K n"
proof -
  have "(word_of_int K :: i64) AND 2 ^ n \<noteq> 0 \<longleftrightarrow> bit (word_of_int K :: i64) n"
    by (simp add: and_exp_eq_0_iff_not_bit)
  also have "\<dots> \<longleftrightarrow> bit K n" using assms by (simp add: bit_word_of_int_iff)
  finally show ?thesis .
qed

lemma shl_int_one_small:
  assumes "0 \<le> b" "b \<le> 30"
  shows "shl_int_one (word_of_int b) = Some (2 ^ nat b)"
proof -
  have s: "sint (word_of_int b :: i64) = b" using assms by (intro sint_i64_of_nonneg) simp_all
  have c: "0 \<le>s (word_of_int b :: i64)" "(word_of_int b :: i64) <s 32"
    using assms by (simp_all add: word_sle_eq word_sless_alt s)
  have "(scast (push_bit (nat b) (1 :: 32 word)) :: i64) = 2 ^ nat b"
  proof (rule i64_eqI)
    have lt: "nat b < 31" using assms by simp
    have p: "(2 :: int) ^ nat b < 2 ^ 31" using lt by (intro power_strict_increasing) simp_all
    have aux: "sint (word_of_int x :: 32 word) = x" if "0 \<le> x" "x < 2 ^ 31" for x
      using that by (simp add: sint_sbintrunc' signed_take_bit_int_eq_self)
    have "sint (word_of_int (2 ^ nat b) :: 32 word) = 2 ^ nat b"
      using p by (intro aux) simp_all
    then have "sint (push_bit (nat b) (1 :: 32 word)) = 2 ^ nat b"
      by (simp add: push_bit_eq_mult)
    moreover have "sint (scast (push_bit (nat b) (1 :: 32 word)) :: i64)
                   = sint (push_bit (nat b) (1 :: 32 word))"
      by (rule sint_up_scast) (simp add: is_up)
    moreover have "sint (2 ^ nat b :: i64) = 2 ^ nat b" using lt by (intro sint_i64_pow2) simp
    ultimately show "sint (scast (push_bit (nat b) (1 :: 32 word)) :: i64) = sint (2 ^ nat b :: i64)"
      by simp
  qed
  with c show ?thesis by (simp add: shl_int_one_def s)
qed

lemma div_pow2_step:
  fixes K :: int
  shows "K div 2 ^ n = 2 * (K div 2 ^ Suc n) + (if bit K n then 1 else 0)"
proof -
  have "K div (2 ^ n * 2) = (K div 2 ^ n) div 2"
    by (rule zdiv_zmult2_eq) simp
  then have "K div 2 ^ Suc n = (K div 2 ^ n) div 2"
    by (simp add: mult.commute)
  moreover have "bit K n \<longleftrightarrow> odd (K div 2 ^ n)" by (rule bit_iff_odd)
  ultimately show ?thesis by (auto elim: oddE)
qed


lemma square_bound:
  fixes x y :: int
  assumes "0 \<le> x" "x < P" "0 \<le> y" "y < P" "P \<le> 3037000500"
  shows "0 \<le> x * y" "x * y < 2 ^ 63"
proof -
  show "0 \<le> x * y" using assms(1,3) by simp
  have "x * y \<le> 3037000499 * 3037000499"
    using assms by (intro mult_mono) simp_all
  then show "x * y < 2 ^ 63" by simp
qed

lemma rem_i64_product:
  fixes x y P :: int
  assumes "0 \<le> x" "x < P" "0 \<le> y" "y < P" "P \<le> 3037000500"
  shows "rem_i64 (word_of_int x * word_of_int y) (word_of_int P) = Inr (word_of_int (x * y mod P))"
proof -
  have P: "0 < P" "P < 2 ^ 63" using assms by simp_all
  have "rem_i64 (word_of_int (x * y)) (word_of_int P) = Inr (word_of_int (x * y mod P))"
    using square_bound [OF assms] P by (rule rem_i64_of_int)
  then show ?thesis by simp
qed

text \<open>
  With \<open>j\<close> iterations left the running result is \<open>G\<close> to the exponent made of the bits
  of \<open>K\<close> above position \<open>j\<close>, and the mask is \<open>2 ^ (j - 1)\<close>. A modulus of at most
  3037000500 keeps every product below \<open>2\<^sup>6\<^sup>3\<close>.
\<close>

lemma modexp_64_loop_correct:
  fixes G K P b :: int and j :: nat
  assumes "0 < G" "G < P" "P \<le> 3037000500" "int j \<le> b + 1" "b \<le> 61"
    and "0 < j \<Longrightarrow> msk = Some (2 ^ (j - 1))" and "0 \<le> K"
  shows "modexp_64_loop (word_of_int G) (word_of_int K) (word_of_int P) (word_of_int b) msk
           (b + 1 - int j) (word_of_int (G ^ nat (K div 2 ^ j) mod P))
         = Inr (word_of_int (G ^ nat (K div 2 ^ 0) mod P))"
  using assms(4,6)
proof (induction j arbitrary: msk)
  case 0
  then have "- 1 \<le> b" by simp
  with assms(5) have "sint (word_of_int b :: i64) = b"
    by (intro sint_i64_of_int) simp_all
  then show ?case by (subst modexp_64_loop.simps) simp
next
  case (Suc j)
  have P: "0 < P" using assms(1,2) by simp
  have b: "sint (word_of_int b :: i64) = b"
    using Suc.prems(1) assms(5) by (intro sint_i64_of_int) simp_all
  have j: "j < 63" using Suc.prems(1) assms(5) by simp
  define e where "e = nat (K div 2 ^ Suc j)"
  define R where "R = G ^ e mod P"
  define R1 where "R1 = R * R mod P"
  define R2 where "R2 = (if bit K j then R1 * G mod P else R1)"
  have R: "0 \<le> R" "R < P" using P by (simp_all add: R_def)
  have R1: "0 \<le> R1" "R1 < P" using P by (simp_all add: R1_def)
  have G: "0 \<le> G" using assms(1) by simp
  have sq: "rem_i64 (word_of_int R * word_of_int R) (word_of_int P) = Inr (word_of_int R1)"
    unfolding R1_def using R R assms(3) by (rule rem_i64_product)
  have mu: "rem_i64 (word_of_int R1 * word_of_int G) (word_of_int P)
            = Inr (word_of_int (R1 * G mod P))"
    using R1 G assms(2,3) by (rule rem_i64_product)
  have m: "msk = Some (2 ^ j)" using Suc.prems(2) by simp
  have bt: "(word_of_int K :: i64) AND 2 ^ j \<noteq> 0 \<longleftrightarrow> bit K j"
    using j by (rule and_pow2_iff)
  have ii: "b - int j + 1 = b + 1 - int j" by simp
  have step: "modexp_64_loop (word_of_int G) (word_of_int K) (word_of_int P) (word_of_int b) msk
           (b + 1 - int (Suc j)) (word_of_int R)
        = modexp_64_loop (word_of_int G) (word_of_int K) (word_of_int P) (word_of_int b)
           (Some (signed_drop_bit 1 (2 ^ j))) (b + 1 - int j) (word_of_int R2)"
    by (subst modexp_64_loop.simps) (simp add: b sq mu m bt R2_def ii del: power_Suc)
  have msk': "Some (signed_drop_bit 1 (2 ^ j :: i64)) = Some (2 ^ (j - 1))" if "0 < j"
  proof -
    from that obtain j' where j': "j = Suc j'" by (cases j) simp_all
    with j have "signed_drop_bit 1 (2 ^ Suc j' :: i64) = 2 ^ j'"
      by (intro signed_drop_bit_pow2) simp
    with j' show ?thesis by simp
  qed
  have e0: "0 \<le> K div 2 ^ Suc j" using assms(7) by (simp add: pos_imp_zdiv_nonneg_iff)
  have "K div 2 ^ j = 2 * (K div 2 ^ Suc j) + (if bit K j then 1 else 0)"
    by (rule div_pow2_step)
  with e0 have ex: "nat (K div 2 ^ j) = 2 * e + (if bit K j then 1 else 0)"
    by (simp add: e_def nat_add_distrib nat_mult_distrib)
  have "G ^ (2 * e) mod P = R1"
    by (simp add: R1_def R_def mult_2 power_add mod_mult_eq)
  moreover have "G ^ (2 * e + 1) mod P = R1 * G mod P"
  proof -
    have "G ^ (2 * e + 1) = G ^ (2 * e) * G" by simp
    then have "G ^ (2 * e + 1) mod P = ((G ^ (2 * e) mod P) * G) mod P"
      by (simp only: mod_mult_left_eq)
    then show ?thesis by (simp only: \<open>G ^ (2 * e) mod P = R1\<close>)
  qed
  ultimately have R2: "R2 = G ^ nat (K div 2 ^ j) mod P"
    by (simp add: R2_def ex)
  have "int j \<le> b + 1" using Suc.prems(1) by simp
  then have "modexp_64_loop (word_of_int G) (word_of_int K) (word_of_int P) (word_of_int b)
           (Some (signed_drop_bit 1 (2 ^ j))) (b + 1 - int j)
           (word_of_int (G ^ nat (K div 2 ^ j) mod P))
        = Inr (word_of_int (G ^ nat (K div 2 ^ 0) mod P))"
    using msk' by (rule Suc.IH)
  with step show ?case by (simp only: R2 R_def e_def)
qed

subsection \<open>Fermat's little theorem, for the reduction of the exponent\<close>

lemma prime_dvd_choose:
  assumes "is_prime (int p)" "0 < k" "k < p"
  shows "int p dvd int (p choose k)"
proof -
  from assms(2,3) obtain k' p' where k: "k = Suc k'" and p: "p = Suc p'"
    by (cases k; cases p) simp_all
  have "Suc k' * (Suc p' choose Suc k') = Suc p' * (p' choose k')"
    by (rule Suc_times_binomial)
  then have "int k * int (p choose k) = int p * int (p' choose k')"
    unfolding k p by (simp only: of_nat_mult [symmetric])
  then have "int p dvd int (p choose k) * int k" by (simp add: mult.commute)
  moreover have "coprime (int p) (int k)"
    using is_prime_coprime [OF assms(1), of "int k"] assms(2,3)
    by (simp add: coprime_iff_gcd_eq_1 gcd.commute)
  ultimately show ?thesis by (simp add: coprime_dvd_mult_left_iff)
qed

lemma freshman_dream:
  fixes a :: int
  assumes "is_prime (int p)"
  shows "int p dvd (a + 1) ^ p - (a ^ p + 1)"
proof -
  from assms have p: "0 < p" by (simp add: is_prime_def)
  define f where "f k = int (p choose k) * a ^ k" for k
  define g where "g k = (if k = 0 then 1 else 0) + (if k = p then a ^ p else (0 :: int))" for k
  have "(a + 1) ^ p = (\<Sum>k\<le>p. f k)"
    by (simp add: binomial_ring f_def)
  moreover have "(\<Sum>k\<le>p. g k) = a ^ p + 1"
    by (simp add: g_def sum.distrib)
  ultimately have "(a + 1) ^ p - (a ^ p + 1) = (\<Sum>k\<le>p. f k - g k)"
    by (simp add: sum_subtractf)
  moreover have "int p dvd (\<Sum>k\<le>p. f k - g k)"
  proof (rule dvd_sum)
    fix k assume "k \<in> {..p}"
    then have kp: "k \<le> p" by simp
    show "int p dvd f k - g k"
    proof (cases "k = 0 \<or> k = p")
      case True
      with p show ?thesis by (auto simp: f_def g_def)
    next
      case False
      with kp have "0 < k" "k < p" by simp_all
      with assms have "int p dvd int (p choose k)" by (rule prime_dvd_choose)
      with False show ?thesis by (simp add: f_def g_def)
    qed
  qed
  ultimately show ?thesis by simp
qed

lemma fermat_power_prime:
  assumes "is_prime (int p)"
  shows "int p dvd (int a) ^ p - int a"
proof (induction a)
  case 0
  from assms have "0 < p" by (simp add: is_prime_def)
  then show ?case by (simp add: zero_power)
next
  case (Suc a)
  have eq: "((int a + 1) ^ p - (int a ^ p + 1)) + (int a ^ p - int a) = (int a + 1) ^ p - (int a + 1)"
    by simp
  have "int p dvd ((int a + 1) ^ p - (int a ^ p + 1)) + (int a ^ p - int a)"
    using freshman_dream [OF assms, of "int a"] Suc.IH by (rule dvd_add)
  then have "int p dvd (int a + 1) ^ p - (int a + 1)" by (simp only: eq)
  moreover have "int (Suc a) = int a + 1" by simp
  ultimately show ?case by (simp only:)
qed

lemma fermat_little:
  assumes "is_prime P" "0 < G" "G < P"
  shows "G ^ nat (P - 1) mod P = 1"
proof -
  from assms(1) have P1: "1 < P" by (simp add: is_prime_def)
  define p where "p = nat P"
  define a where "a = nat G"
  have P: "P = int p" and G: "G = int a" using P1 assms(2) by (simp_all add: p_def a_def)
  have "p = Suc (nat (P - 1))" using P1 by (simp add: p_def)
  then have "G ^ p - G = G * (G ^ nat (P - 1) - 1)"
    by (simp add: algebra_simps)
  moreover have "P dvd G ^ p - G"
    using fermat_power_prime [of p a] assms(1) by (simp add: P G)
  ultimately have "P dvd (G ^ nat (P - 1) - 1) * G" by (simp add: mult.commute)
  moreover have "coprime P G"
    using is_prime_coprime [OF assms] by (simp add: coprime_iff_gcd_eq_1 gcd.commute)
  ultimately have "P dvd G ^ nat (P - 1) - 1" by (simp add: coprime_dvd_mult_left_iff)
  then have "G ^ nat (P - 1) mod P = 1 mod P" by (simp add: mod_eq_dvd_iff)
  with P1 show ?thesis by simp
qed

lemma fermat_reduce_exponent:
  assumes "is_prime P" "0 < G" "G < P" "0 \<le> K"
  shows "G ^ nat (K mod (P - 1)) mod P = G ^ nat K mod P"
proof -
  from assms(1) have P1: "1 < P" by (simp add: is_prime_def)
  define q where "q = nat (K div (P - 1))"
  define r where "r = nat (K mod (P - 1))"
  have "K = (P - 1) * (K div (P - 1)) + K mod (P - 1)" by simp
  moreover have "0 \<le> K div (P - 1)" "0 \<le> K mod (P - 1)"
    using assms(4) P1 by (simp_all add: pos_imp_zdiv_nonneg_iff)
  ultimately have "nat K = nat (P - 1) * q + r"
    using P1 unfolding q_def r_def
    by (metis nat_add_distrib nat_mult_distrib diff_ge_0_iff_ge less_imp_le mult_nonneg_nonneg)
  then have "G ^ nat K = (G ^ nat (P - 1)) ^ q * G ^ r"
    by (simp add: power_add power_mult)
  then have "G ^ nat K mod P = ((G ^ nat (P - 1) mod P) ^ q mod P) * (G ^ r mod P) mod P"
    by (simp add: mod_mult_eq power_mod)
  also have "\<dots> = G ^ r mod P"
    using P1 by (simp add: fermat_little [OF assms(1-3)])
  finally show ?thesis by (simp add: r_def)
qed

lemma div_pow2_floorlog:
  fixes K :: int
  assumes "1 \<le> K"
  shows "K div 2 ^ (floorlog 2 (nat K) - 1) = 1"
proof -
  define j where "j = floorlog 2 (nat K) - 1"
  have pos: "0 < nat K" using assms by simp
  have fl: "0 < floorlog 2 (nat K)" using pos by (simp add: floorlog_def)
  from floorlog_bounds [OF pos, of 2]
  have "2 ^ j \<le> nat K" "nat K < 2 ^ floorlog 2 (nat K)" by (simp_all add: j_def)
  moreover have "floorlog 2 (nat K) = Suc j" using fl by (simp add: j_def)
  ultimately have n: "2 ^ j \<le> nat K" "nat K < 2 * 2 ^ j" by simp_all
  have "int (2 ^ j) \<le> int (nat K)" "int (nat K) < int (2 * 2 ^ j)"
    using n by (simp_all only: of_nat_le_iff of_nat_less_iff)
  then have lo: "2 ^ j \<le> K" and hi: "K < 2 * 2 ^ j" using assms by simp_all
  have "K div 2 ^ j = 1"
  proof (rule int_div_pos_eq)
    show "K = 2 ^ j * 1 + (K - 2 ^ j)" by simp
    show "0 \<le> K - 2 ^ j" using lo by simp
    show "K - 2 ^ j < 2 ^ j" using hi by simp
  qed
  then show ?thesis by (simp only: j_def)
qed

lemma modexp_64_of_int:
  fixes G K P :: int
  assumes "0 < G" "G < P" "P \<le> 3037000500" "0 \<le> K" "K < 2 ^ 63" "K mod (P - 1) \<noteq> 0"
  shows "modexp_64 (word_of_int G) (word_of_int K) (word_of_int P)
         = Inr (word_of_int (G ^ nat (K mod (P - 1)) mod P))"
proof -
  define K' where "K' = K mod (P - 1)"
  have P2: "0 < P - 1"
  proof (rule ccontr)
    assume "\<not> 0 < P - 1"
    with assms(1,2) have "P - 1 = 1 \<or> P - 1 = 0" by linarith
    with assms(6) assms(1,2) show False by auto
  qed
  have K'0: "0 \<le> K'" and K'lt: "K' < P - 1" using P2 by (simp_all add: K'_def)
  with assms(6) have K'1: "1 \<le> K'" by (simp add: K'_def)
  have K'32: "K' < 2 ^ 32" using K'lt assms(3) by simp
  have rm: "rem_i64 (word_of_int K) (word_of_int P - 1) = Inr (word_of_int K')"
  proof -
    have "rem_i64 (word_of_int K) (word_of_int (P - 1)) = Inr (word_of_int (K mod (P - 1)))"
      using assms(4,5) P2 assms(3) by (intro rem_i64_of_int) simp_all
    then show ?thesis by (simp add: K'_def)
  qed
  define fl where "fl = floorlog 2 (nat K')"
  have sK': "sint (word_of_int K' :: i64) = K'"
    using K'0 K'32 by (intro sint_i64_of_nonneg) simp_all
  have "sint (bit_length (word_of_int K')) = int (floorlog 2 (nat (sint (word_of_int K' :: i64))))"
    using K'1 by (intro bit_length_floorlog) (simp only: sK')
  then have "sint (bit_length (word_of_int K')) = int fl"
    by (simp only: sK' fl_def)
  note sbl = this
  have fl1: "1 \<le> fl" using K'1 by (simp add: fl_def floorlog_def)
  have fl32: "fl \<le> 32"
    unfolding fl_def using K'32 K'0 by (intro floorlog_leI) (simp_all add: nat_less_iff)
  have "sint (word_of_int (int fl) :: i64) = int fl"
    using fl32 by (intro sint_i64_of_nonneg) simp_all
  with sbl have "sint (bit_length (word_of_int K')) = sint (word_of_int (int fl) :: i64)"
    by (simp only:)
  then have bl: "bit_length (word_of_int K') = word_of_int (int fl)"
    by (rule i64_eqI)
  define b where "b = int fl - 2"
  define j where "j = fl - 1"
  have bits: "bit_length (word_of_int K') - 2 = (word_of_int b :: i64)"
    by (simp add: bl b_def)
  have jb: "int j \<le> b + 1" "b \<le> 61" "b + 1 - int j = 0"
    using fl1 fl32 by (simp_all add: b_def j_def)
  have msk: "shl_int_one (word_of_int b) = Some (2 ^ (j - 1))" if "0 < j"
  proof -
    from that fl32 have "0 \<le> b" "b \<le> 30" by (simp_all add: b_def j_def)
    then have "shl_int_one (word_of_int b) = Some (2 ^ nat b)" by (rule shl_int_one_small)
    moreover have "nat b = j - 1" by (simp add: b_def j_def)
    ultimately show ?thesis by simp
  qed
  have d1: "K' div 2 ^ j = 1"
    unfolding j_def fl_def using K'1 by (rule div_pow2_floorlog)
  have "modexp_64_loop (word_of_int G) (word_of_int K') (word_of_int P) (word_of_int b)
           (shl_int_one (word_of_int b)) (b + 1 - int j)
           (word_of_int (G ^ nat (K' div 2 ^ j) mod P))
         = Inr (word_of_int (G ^ nat (K' div 2 ^ 0) mod P))"
    using assms(1-3) jb(1,2) msk K'0 by (rule modexp_64_loop_correct)
  moreover have "G ^ nat (K' div 2 ^ j) mod P = G" using assms(1,2) by (simp add: d1)
  ultimately have "modexp_64_loop (word_of_int G) (word_of_int K') (word_of_int P) (word_of_int b)
           (shl_int_one (word_of_int b)) 0 (word_of_int G)
         = Inr (word_of_int (G ^ nat K' mod P))"
    by (simp add: jb(3))
  then show ?thesis
    using rm bits unfolding K'_def by (simp add: modexp_64_def Let_def)
qed


section \<open>Modular exponentiation\<close>

text \<open>
  Claim C5, as amended. For \<^verbatim>\<open>int64_t\<close> operands with \<open>p\<close> prime, \<open>p \<le> 3037000500\<close>,
  \<open>0 < g < p\<close>, \<open>k \<ge> 0\<close> and \<open>k mod (p - 1) \<noteq> 0\<close>, \<^verbatim>\<open>modexp_64\<close> returns \<open>g ^ k mod p\<close>,
  an integer in \<open>[0, p)\<close>.
\<close>

theorem modexp_64_power:
  assumes "is_prime (sint p)" "sint p \<le> 3037000500" "0 <s g" "g <s p" "0 \<le>s k"
    and "sint k mod (sint p - 1) \<noteq> 0"
  shows "\<exists>r. modexp_64 g k p = Inr r \<and> sint r = sint g ^ nat (sint k) mod sint p \<and>
           0 \<le> sint r \<and> sint r < sint p"
proof -
  note k = i64_nonneg_range [OF assms(5)]
  from assms(3,4) have g: "0 < sint g" "sint g < sint p" by (simp_all add: word_sless_alt)
  define R where "R = sint g ^ nat (sint k) mod sint p"
  from g have P: "0 < sint p" by simp
  then have R: "0 \<le> R" "R < sint p" by (simp_all add: R_def)
  have "modexp_64 (word_of_int (sint g)) (word_of_int (sint k)) (word_of_int (sint p))
        = Inr (word_of_int (sint g ^ nat (sint k mod (sint p - 1)) mod sint p))"
    using g assms(2) k assms(6) by (rule modexp_64_of_int)
  also have "sint g ^ nat (sint k mod (sint p - 1)) mod sint p = R"
    unfolding R_def using assms(1) g k(1) by (rule fermat_reduce_exponent)
  finally have r: "modexp_64 g k p = Inr (word_of_int R)" by simp
  have s: "sint (word_of_int R :: i64) = R"
    using R assms(2) by (intro sint_i64_of_nonneg) simp_all
  show ?thesis
  proof (intro exI conjI)
    show "modexp_64 g k p = Inr (word_of_int R)" by (rule r)
    show "sint (word_of_int R :: i64) = sint g ^ nat (sint k) mod sint p"
      unfolding s by (rule R_def)
    show "0 \<le> sint (word_of_int R :: i64)" unfolding s by (rule R(1))
    show "sint (word_of_int R :: i64) < sint p" unfolding s by (rule R(2))
  qed
qed

theorem modexp_64_power_witness:
  "is_prime (sint (11 :: i64)) \<and> sint (11 :: i64) \<le> 3037000500 \<and> (0 :: i64) <s 3 \<and>
   (3 :: i64) <s 11 \<and> (0 :: i64) \<le>s 7 \<and> sint (7 :: i64) mod (sint (11 :: i64) - 1) = 7 \<and>
   modexp_64 3 7 11 = Inr 9 \<and> sint (3 :: i64) ^ nat (sint (7 :: i64)) mod sint (11 :: i64) = 9 \<and>
   (\<exists>r. modexp_64 3 7 11 = Inr r \<and>
      sint r = sint (3 :: i64) ^ nat (sint (7 :: i64)) mod sint (11 :: i64))"
proof -
  have h1: "is_prime (sint (11 :: i64))" using is_prime_11 by simp
  have h2: "sint (11 :: i64) \<le> 3037000500" by simp
  have h3: "(0 :: i64) <s 3" by (simp add: word_sless_alt)
  have h4: "(3 :: i64) <s 11" by (simp add: word_sless_alt)
  have h5: "(0 :: i64) \<le>s 7" by (simp add: word_sle_eq)
  have h6: "sint (7 :: i64) mod (sint (11 :: i64) - 1) = 7" by simp
  then have h6': "sint (7 :: i64) mod (sint (11 :: i64) - 1) \<noteq> 0" by simp
  have v: "modexp_64 3 7 11 = Inr 9" by code_simp
  have w: "sint (3 :: i64) ^ nat (sint (7 :: i64)) mod sint (11 :: i64) = 9" by simp
  from modexp_64_power [OF h1 h2 h3 h4 h5 h6'] h1 h2 h3 h4 h5 h6 v w show ?thesis by blast
qed

text \<open>
  As stated, C5 fails outside that range: C++ \<^verbatim>\<open>%\<close> keeps the sign of a negative base
  (\<^verbatim>\<open>modexp_64(-1, 3, 11)\<close> is \<open>-1\<close>, not 10), and a base above \<open>p\<close> comes back unreduced
  when the loop does not run (\<^verbatim>\<open>modexp_64(13, 1, 11)\<close> is 13, not 2).
\<close>

theorem modexp_64_power_counterexample:
  "is_prime 11 \<and> gcd (sint (- 1 :: i64)) 11 = 1 \<and> modexp_64 (- 1) 3 11 = Inr (- 1) \<and>
   sint (- 1 :: i64) = - 1 \<and> (- 1 :: int) ^ 3 mod 11 = 10 \<and>
   gcd (sint (13 :: i64)) 11 = 1 \<and> modexp_64 13 1 11 = Inr 13 \<and> (13 :: int) ^ 1 mod 11 = 2"
proof -
  have "modexp_64 (- 1) 3 11 = Inr (- 1)" by code_simp
  moreover have "modexp_64 13 1 11 = Inr 13" by code_simp
  moreover have "gcd (sint (- 1 :: i64)) 11 = 1" by simp
  moreover have "gcd (sint (13 :: i64)) 11 = 1" by code_simp
  moreover have "sint (- 1 :: i64) = - 1" by simp
  moreover have "(- 1 :: int) ^ 3 mod 11 = 10" by simp
  moreover have "(13 :: int) ^ 1 mod 11 = 2" by simp
  ultimately show ?thesis using is_prime_11 by blast
qed

text \<open>
  Claim C6 says that a reduced exponent of 0 still gives \<open>g ^ 0 mod p = 1\<close>. The code
  starts from \<open>r = g\<close>, as if the top bit of the exponent were always set, and the loop
  does not run: \<^verbatim>\<open>modexp_64(2, 0, 11)\<close> and \<^verbatim>\<open>modexp_64(2, 10, 11)\<close> are 2, where
  \<open>2 ^ 0 mod 11\<close> and \<open>2 ^ 10 mod 11\<close> are 1.
\<close>

theorem modexp_64_reduced_exponent_zero:
  "modexp_64 2 0 11 = Inr 2 \<and> (2 :: int) ^ 0 mod 11 = 1 \<and>
   modexp_64 2 10 11 = Inr 2 \<and> (2 :: int) ^ 10 mod 11 = 1"
proof -
  have "modexp_64 2 0 11 = Inr 2" by code_simp
  moreover have "modexp_64 2 10 11 = Inr 2" by code_simp
  moreover have "(2 :: int) ^ 0 mod 11 = 1" by simp
  moreover have "(2 :: int) ^ 10 mod 11 = 1" by simp
  ultimately show ?thesis by blast
qed

lemma modexp_64_modulus_one: "modexp_64 g k 1 = Inl DivideByZero"
  by (simp add: modexp_64_def rem_i64_def)

lemma modexp_64_modulus_zero:
  assumes "k \<noteq> int64_min"
  shows "modexp_64 g k 0 = Inr g"
proof -
  have "rem_i64 k (0 - 1) = Inr 0"
    using assms by (simp add: rem_i64_def signed_modulo_int_def)
  moreover have "bit_length 0 = 1" by (rule bit_length_below_2) simp
  moreover have "modexp_64_loop g 0 0 (- 1) msk 0 g = Inr g" for msk
    by (subst modexp_64_loop.simps) simp
  ultimately show ?thesis by (simp add: modexp_64_def Let_def)
qed

lemma modexp_fits:
  assumes "- (2 ^ 63) \<le> g" "g < 2 ^ 63" "- (2 ^ 63) \<le> k" "k < 2 ^ 63"
    "- (2 ^ 63) \<le> p" "p < 2 ^ 63"
  shows "modexp g k p
         = return_longlong (modexp_64 (word_of_int g) (word_of_int k) (word_of_int p)) False"
proof -
  have "\<bar>g\<bar> < 2 ^ 64" "\<bar>k\<bar> < 2 ^ 64" "\<bar>p\<bar> < 2 ^ 64" using assms by simp_all
  then have "PyLong_NumBits g \<le> 64" "PyLong_NumBits k \<le> 64" "PyLong_NumBits p \<le> 64"
    by (simp_all add: PyLong_NumBits_le_64)
  moreover have "PyLong_AsLongLong g = (word_of_int g, False)"
    "PyLong_AsLongLong k = (word_of_int k, False)" "PyLong_AsLongLong p = (word_of_int p, False)"
    using assms by (simp_all add: PyLong_AsLongLong_fits)
  ultimately show ?thesis by (simp add: modexp_def)
qed

text \<open>
  Claim C7, as amended. No \<^verbatim>\<open>InvalidModulus\<close> outcome exists. For operands \<open>g\<close>, \<open>k\<close> of
  \<^verbatim>\<open>int64_t\<close> range, \<^verbatim>\<open>modexp(g, k, 1)\<close> stops at \<^verbatim>\<open>k %= 0\<close>, a division by zero, and
  \<^verbatim>\<open>modexp(g, k, 0)\<close> returns \<open>g\<close> (for \<open>k\<close> other than \<^verbatim>\<open>INT64_MIN\<close>).
\<close>

theorem modexp_no_modulus_check:
  assumes "- (2 ^ 63) \<le> g" "g < 2 ^ 63" "- (2 ^ 63) \<le> k" "k < 2 ^ 63"
  shows "modexp g k 1 = Trap DivideByZero \<and> (k \<noteq> - (2 ^ 63) \<longrightarrow> modexp g k 0 = PyLong g)"
proof (intro conjI impI)
  have "modexp g k 1 = return_longlong (modexp_64 (word_of_int g) (word_of_int k) (word_of_int 1)) False"
    using assms by (intro modexp_fits) simp_all
  then show "modexp g k 1 = Trap DivideByZero"
    by (simp add: modexp_64_modulus_one return_longlong_def)
next
  assume ne: "k \<noteq> - (2 ^ 63)"
  have "sint (word_of_int k :: i64) = k" using assms(3,4) by (rule sint_i64_of_int)
  with ne have "(word_of_int k :: i64) \<noteq> int64_min"
    using sint_int64_min by auto
  then have "modexp_64 (word_of_int g) (word_of_int k) 0 = Inr (word_of_int g)"
    by (rule modexp_64_modulus_zero)
  moreover have "modexp g k 0
      = return_longlong (modexp_64 (word_of_int g) (word_of_int k) (word_of_int 0)) False"
    using assms by (intro modexp_fits) simp_all
  moreover have "sint (word_of_int g :: i64) = g" using assms(1,2) by (rule sint_i64_of_int)
  ultimately show "modexp g k 0 = PyLong g"
    by (simp add: return_longlong_def)
qed

theorem modexp_no_modulus_check_witness:
  "- (2 ^ 63) \<le> (2 :: int) \<and> (2 :: int) < 2 ^ 63 \<and> - (2 ^ 63) \<le> (5 :: int) \<and>
   (5 :: int) < 2 ^ 63 \<and> (5 :: int) \<noteq> - (2 ^ 63) \<and>
   modexp 2 5 1 = Trap DivideByZero \<and> modexp 2 5 0 = PyLong 2"
  using modexp_no_modulus_check [of 2 5] by simp

text \<open>
  As stated, C7 fails: a modulus of 0 or \<open>-7\<close> gives a numeric result, a modulus of 1 a
  division by zero.
\<close>

theorem modexp_no_modulus_check_counterexample:
  "modexp 2 5 0 = PyLong 2 \<and> modexp 2 5 1 = Trap DivideByZero \<and>
   modexp 2 5 (- 7) = PyLong 4"
proof -
  have "modexp 2 5 0 = PyLong 2" by code_simp
  moreover have "modexp 2 5 1 = Trap DivideByZero" by code_simp
  moreover have "modexp 2 5 (- 7) = PyLong 4" by code_simp
  ultimately show ?thesis by blast
qed


section \<open>Fixed width against arbitrary precision\<close>

text \<open>
  On operands \<open>0 \<le> a < 2\<^sup>6\<^sup>3\<close> and \<open>0 < n < 2\<^sup>6\<^sup>3\<close> the two implementations of the
  general inverse return the same integer when \<open>gcd a n = 1\<close>, and the two
  implementations of the prime inverse return the same integer.
\<close>

lemma fixed_width_agrees:
  assumes "0 \<le> a" "a < 2 ^ 63" "0 < n" "n < 2 ^ 63"
  shows "(gcd a n = 1 \<longrightarrow>
            (\<exists>t. modinv_64 (word_of_int a) (word_of_int n) = Inr t \<and>
                 modinv_pylong a n = PyLong (sint t))) \<and>
         (\<exists>u. modinv_64_prime (word_of_int a) (word_of_int n) = Inr u \<and>
              primeinv_pylong a n = PyLong (sint u))"
proof (intro conjI impI)
  assume g: "gcd a n = 1"
  from assms obtain t0 where t0: "modinv_pylong_loop 0 1 n a = (t0, gcd a n)" "\<bar>t0\<bar> \<le> n"
    "modinv_64 (word_of_int a) (word_of_int n)
         = Inr (if 1 < gcd a n then 0 else word_of_int (if t0 < 0 then t0 + n else t0))"
    by (rule modinv_64_of_int)
  define t where "t = (if t0 < 0 then t0 + n else t0)"
  have "0 \<le> t" "t \<le> n" using t0(2) assms(3) by (auto simp: t_def)
  with assms(4) have s: "sint (word_of_int t :: i64) = t"
    by (intro sint_i64_of_nonneg) simp_all
  have "modinv_64 (word_of_int a) (word_of_int n) = Inr (word_of_int t)"
    using t0(3) g by (simp add: t_def)
  moreover have "modinv_pylong a n = PyLong (sint (word_of_int t :: i64))"
    unfolding s using t0(1) g by (simp add: modinv_pylong_def t_def)
  ultimately show "\<exists>t. modinv_64 (word_of_int a) (word_of_int n) = Inr t \<and>
                 modinv_pylong a n = PyLong (sint t)"
    by blast
next
  from assms obtain u where u: "modinv_64_prime (word_of_int a) (word_of_int n) = Inr (word_of_int u)"
    "primeinv_pylong a n = PyLong u" "\<bar>u\<bar> \<le> n"
    by (rule modinv_64_prime_of_int)
  have "sint (word_of_int u :: i64) = u"
    using u(3) assms(4) by (intro sint_i64_of_int) linarith+
  with u(1,2) show "\<exists>u. modinv_64_prime (word_of_int a) (word_of_int n) = Inr u \<and>
              primeinv_pylong a n = PyLong (sint u)"
    by auto
qed

text \<open>
  Claim C3 says that on every input representable in 64 bits the fixed-width and the
  arbitrary-precision implementation return identical results, also where no inverse
  exists. They do not. For \<open>(6, 9)\<close>, where no inverse exists, \<^verbatim>\<open>modinv_64\<close> returns 0, as
  the comment above \<^verbatim>\<open>modinv\<close> documents, and the arbitrary-precision branch \<^verbatim>\<open>None\<close>.
  For \<open>(-1, 3)\<close> \<^verbatim>\<open>modinv_64_prime\<close> returns 1, which is not an inverse of \<open>-1\<close> modulo
  3, and \<^verbatim>\<open>_primeinv\<close> returns \<open>-1\<close>, which is.
\<close>

theorem fixed_width_differs:
  "modinv_64 6 9 = Inr 0 \<and> modinv_pylong 6 9 = PyNone \<and>
   modinv_64_prime (- 1) 3 = Inr 1 \<and> primeinv_pylong (- 1) 3 = PyLong (- 1)"
proof -
  have "modinv_64 6 9 = Inr 0" by code_simp
  moreover have "modinv_pylong 6 9 = PyNone" by code_simp
  moreover have "modinv_64_prime (- 1) 3 = Inr 1" by code_simp
  moreover have "primeinv_pylong (- 1) 3 = PyLong (- 1)" by code_simp
  ultimately show ?thesis by blast
qed

end
